theory Spec2Isabelle
  imports Complex_Main "HOL-Library.Multiset"
begin

section \<open>JavaScript strings\<close>

text \<open>
  A JavaScript string is a sequence of UTF-16 code units; \<open>length\<close>, \<open>includes\<close>,
  \<open>indexOf\<close>, \<open>slice\<close> and the regular expressions of the source (none has the
  \<open>u\<close> flag) all work on code units. A string is modelled as the list of its code
  units, each a natural number. \<open>asc\<close> turns an ASCII literal into such a list;
  letters outside ASCII are written by their code unit (\<open>233\<close> is e-acute,
  \<open>232\<close> e-grave, \<open>224\<close> a-grave, \<open>226\<close> a-circumflex, \<open>234\<close> e-circumflex,
  \<open>178\<close> superscript two, \<open>9608\<close> the full block used as mask glyph).
\<close>

type_synonym jstring = "nat list"

definition asc :: "string \<Rightarrow> jstring" where
  "asc s = map of_char s"

text \<open>\<open>startsWith k s\<close>: the string \<open>s\<close> begins with \<open>k\<close>.\<close>

fun startsWith :: "jstring \<Rightarrow> jstring \<Rightarrow> bool" where
  "startsWith [] s = True"
| "startsWith (k # ks) [] = False"
| "startsWith (k # ks) (c # s) = (k = c \<and> startsWith ks s)"

text \<open>\<open>str_includes s k\<close> is \<open>s.includes(k)\<close>: \<open>k\<close> occurs somewhere in \<open>s\<close>.\<close>

fun str_includes :: "jstring \<Rightarrow> jstring \<Rightarrow> bool" where
  "str_includes [] k = (k = [])"
| "str_includes (c # s) k = (startsWith k (c # s) \<or> str_includes s k)"

text \<open>\<open>arr.some(k => s.includes(k))\<close> and \<open>arr.filter(k => s.includes(k)).length\<close>.\<close>

definition someIn :: "jstring list \<Rightarrow> jstring \<Rightarrow> bool" where
  "someIn kws s = list_ex (str_includes s) kws"

definition hitsIn :: "jstring list \<Rightarrow> jstring \<Rightarrow> int" where
  "hitsIn kws s = int (length (filter (str_includes s) kws))"

text \<open>\<open>parts.join(" ")\<close>.\<close>

fun joinSp :: "jstring list \<Rightarrow> jstring" where
  "joinSp [] = []"
| "joinSp [s] = s"
| "joinSp (s # t # ts) = s @ [32] @ joinSp (t # ts)"

text \<open>
  \<open>String(n)\<close> and the template \<open>${n}\<close> for a non-negative integer: its decimal
  digits.
\<close>

fun showNat :: "nat \<Rightarrow> jstring" where
  "showNat n = (if n < 10 then [48 + n] else showNat (n div 10) @ [48 + n mod 10])"

declare showNat.simps [simp del]

text \<open>
  \<open>parseInt(ds, 10)\<close> on a string of decimal digits. The source applies it only to
  groups captured by \<open>\d{1,4}\<close> and \<open>\d{1,2}\<close>; \<open>Number\<close> on a match of
  \<open>\d{3,4}\<close> yields the same value.
\<close>

definition parseInt :: "jstring \<Rightarrow> nat" where
  "parseInt ds = fold (\<lambda>c n. 10 * n + (c - 48)) ds 0"

text \<open>
  \<open>toLowerCase\<close> is a built-in of the language, absent from the repository: every
  function of the source that calls it takes it as the parameter \<open>lc\<close>, and the
  theorems hold for every such function. For evaluating concrete inputs,
  \<open>toLowerCaseL1\<close> is what the built-in does on strings of code units below 256
  (Basic Latin and Latin-1 Supplement: A to Z and the capitals \<open>192..222\<close> except the
  multiplication sign \<open>215\<close> move up by 32) and on caseless code units such as the
  full block; strings with other cased letters are outside its scope.
\<close>

definition lowerUnitL1 :: "nat \<Rightarrow> nat" where
  "lowerUnitL1 c =
     (if 65 \<le> c \<and> c \<le> 90 then c + 32
      else if 192 \<le> c \<and> c \<le> 222 \<and> c \<noteq> 215 then c + 32
      else c)"

definition toLowerCaseL1 :: "jstring \<Rightarrow> jstring" where
  "toLowerCaseL1 s = map lowerUnitL1 s"

text \<open>
  Under the \<open>i\<close> flag (without \<open>u\<close>) the engine compares code units after
  canonicalising each: the upper case of the unit when that is a single code unit, except
  that a unit above 127 is never mapped into ASCII. This too is a built-in, taken as the
  parameter \<open>canon\<close> where a pattern is built from arbitrary text; \<open>canonL1\<close> is the
  built-in on code units below 256 and on caseless units.
\<close>

definition canonL1 :: "nat \<Rightarrow> nat" where
  "canonL1 c =
     (if 97 \<le> c \<and> c \<le> 122 then c - 32
      else if 224 \<le> c \<and> c \<le> 254 \<and> c \<noteq> 247 then c - 32
      else if c = 255 then 376
      else if c = 181 then 924
      else c)"

section \<open>Regular expressions\<close>

text \<open>
  The regular expressions of the source, as a datatype with the backtracking semantics
  of ECMAScript: the matcher returns every way to match at the current position, in the
  order in which a backtracking engine tries them, so the head of the list is the match
  the engine reports. Quantifiers in the source are greedy and apply to single-character
  atoms (\<open>\d{1,4}\<close>, \<open>\s*\<close>, \<open>X{0,3}\<close>, \<open>\.?\<close>) or to an optional group
  (\<open>(?:ant)?\<close>, written \<open>Opt\<close>). Every regular expression has at most one capture
  group.
\<close>

datatype rx =
    Eps
  | Cls "nat \<Rightarrow> bool"
  | Seq rx rx
  | Alt rx rx
  | Rep nat "nat option" "nat \<Rightarrow> bool"
  | WordB
  | Bol
  | Behind "nat \<Rightarrow> bool"
  | Cap rx

text \<open>
  A matcher state: the code unit just before the current position (\<open>None\<close> at the
  start of the input), the rest of the input, and the text of the capture group.
\<close>

type_synonym mstate = "nat option \<times> jstring \<times> jstring option"

definition isDigit :: "nat \<Rightarrow> bool" where
  "isDigit c = (48 \<le> c \<and> c \<le> 57)"

text \<open>\<open>\w\<close> without the \<open>u\<close> flag: ASCII letters, digits and the underscore.\<close>

definition isWordChar :: "nat \<Rightarrow> bool" where
  "isWordChar c = (isDigit c \<or> (65 \<le> c \<and> c \<le> 90) \<or> (97 \<le> c \<and> c \<le> 122) \<or> c = 95)"

text \<open>\<open>\s\<close>, which is also what \<open>trim\<close> strips: white space and line terminators.\<close>

definition isSpace :: "nat \<Rightarrow> bool" where
  "isSpace c = (c \<in> set [9, 10, 11, 12, 13, 32, 160, 5760, 8232, 8233, 8239, 8287, 12288, 65279]
                \<or> (8192 \<le> c \<and> c \<le> 8202))"

definition isWordOpt :: "nat option \<Rightarrow> bool" where
  "isWordOpt c = (case c of None \<Rightarrow> False | Some x \<Rightarrow> isWordChar x)"

definition nextUnit :: "jstring \<Rightarrow> nat option" where
  "nextUnit s = (case s of [] \<Rightarrow> None | x # _ \<Rightarrow> Some x)"

text \<open>\<open>advance n st\<close> moves the position \<open>n\<close> code units forward.\<close>

fun advance :: "nat \<Rightarrow> mstate \<Rightarrow> mstate" where
  "advance 0 st = st"
| "advance (Suc n) (b, [], c) = (b, [], c)"
| "advance (Suc n) (b, x # s, c) = advance n (Some x, s, c)"

text \<open>
  Greedy repetition of a character class between \<open>lo\<close> and \<open>hi\<close> times: the longest
  run first, then shorter ones down to \<open>lo\<close>.
\<close>

definition repRuns :: "nat \<Rightarrow> nat option \<Rightarrow> (nat \<Rightarrow> bool) \<Rightarrow> jstring \<Rightarrow> nat list" where
  "repRuns lo hi p s =
     (let run = length (takeWhile p s);
          k = (case hi of None \<Rightarrow> run | Some h \<Rightarrow> min h run)
      in rev [lo ..< Suc k])"

fun rxm :: "rx \<Rightarrow> mstate \<Rightarrow> mstate list" where
  "rxm Eps st = [st]"
| "rxm (Cls p) (b, s, c) =
     (case s of [] \<Rightarrow> [] | x # s' \<Rightarrow> if p x then [(Some x, s', c)] else [])"
| "rxm (Seq r1 r2) st = concat (map (rxm r2) (rxm r1 st))"
| "rxm (Alt r1 r2) st = rxm r1 st @ rxm r2 st"
| "rxm (Rep lo hi p) (b, s, c) = map (\<lambda>n. advance n (b, s, c)) (repRuns lo hi p s)"
| "rxm WordB (b, s, c) =
     (if isWordOpt b \<noteq> isWordOpt (nextUnit s) then [(b, s, c)] else [])"
| "rxm Bol (b, s, c) = (if b = None then [(b, s, c)] else [])"
| "rxm (Behind p) (b, s, c) =
     (case b of None \<Rightarrow> [] | Some x \<Rightarrow> if p x then [(b, s, c)] else [])"
| "rxm (Cap r) (b, s, c) =
     map (\<lambda>(b', s', c'). (b', s', Some (take (length s - length s') s))) (rxm r (b, s, c))"

text \<open>Abbreviations for the quantifiers and literals of the source.\<close>

definition Opt :: "rx \<Rightarrow> rx" where
  "Opt r = Alt r Eps"

definition Star :: "(nat \<Rightarrow> bool) \<Rightarrow> rx" where
  "Star p = Rep 0 None p"

definition Plus :: "(nat \<Rightarrow> bool) \<Rightarrow> rx" where
  "Plus p = Rep 1 None p"

definition OptC :: "(nat \<Rightarrow> bool) \<Rightarrow> rx" where
  "OptC p = Rep 0 (Some 1) p"

definition seqs :: "rx list \<Rightarrow> rx" where
  "seqs rs = foldr Seq rs Eps"

text \<open>A literal character, matched exactly.\<close>

definition Ch :: "nat \<Rightarrow> rx" where
  "Ch k = Cls (\<lambda>c. c = k)"

text \<open>
  A letter of a pattern under the \<open>i\<close> flag. Without the \<open>u\<close> flag a pattern
  character and an input character match when they have the same upper-case code unit;
  for the pattern letters of the source (ASCII letters and e-grave) these are exactly the
  letter and its other case: no code unit above 127 is canonicalised to an ASCII letter,
  and only \<open>232\<close> and \<open>200\<close> have the upper case \<open>200\<close>.
\<close>

definition otherCase :: "nat \<Rightarrow> nat" where
  "otherCase k =
     (if (65 \<le> k \<and> k \<le> 90) \<or> (192 \<le> k \<and> k \<le> 222 \<and> k \<noteq> 215) then k + 32
      else if (97 \<le> k \<and> k \<le> 122) \<or> (224 \<le> k \<and> k \<le> 254 \<and> k \<noteq> 247) then k - 32
      else k)"

definition ChI :: "nat \<Rightarrow> rx" where
  "ChI k = Cls (\<lambda>c. c = k \<or> c = otherCase k)"

definition lit :: "jstring \<Rightarrow> rx" where
  "lit s = seqs (map Ch s)"

definition litI :: "jstring \<Rightarrow> rx" where
  "litI s = seqs (map ChI s)"

text \<open>
  \<open>rxSearch r b s\<close> is \<open>RegExp.prototype.exec\<close> for a regular expression without the
  \<open>g\<close> flag: the leftmost position at which the matcher succeeds. It returns the text
  before the match, the matched text, the capture and the state after the match.
\<close>

fun rxSearch :: "rx \<Rightarrow> jstring \<Rightarrow> nat option \<Rightarrow> jstring
                 \<Rightarrow> (jstring \<times> jstring \<times> jstring option \<times> nat option \<times> jstring) option" where
  "rxSearch r pre b [] =
     (case rxm r (b, [], None) of
        [] \<Rightarrow> None
      | (b', s', c) # _ \<Rightarrow> Some (pre, [], c, b', s'))"
| "rxSearch r pre b (x # s) =
     (case rxm r (b, x # s, None) of
        [] \<Rightarrow> rxSearch r (pre @ [x]) (Some x) s
      | (b', s', c) # _ \<Rightarrow> Some (pre, take (length (x # s) - length s') (x # s), c, b', s'))"

text \<open>\<open>re.test(s)\<close> and the capture group of \<open>s.match(re)\<close>.\<close>

definition rxTest :: "rx \<Rightarrow> jstring \<Rightarrow> bool" where
  "rxTest r s = (rxSearch r [] None s \<noteq> None)"

definition rxGroup :: "rx \<Rightarrow> jstring \<Rightarrow> jstring option" where
  "rxGroup r s =
     (case rxSearch r [] None s of
        None \<Rightarrow> None
      | Some (pre, m, c, b', s') \<Rightarrow> (case c of None \<Rightarrow> Some [] | Some g \<Rightarrow> Some g))"

text \<open>
  The scan shared by the methods that use a regular expression globally: the successive
  leftmost matches, each with the unmatched text before it, and the unmatched tail. After
  an empty match the engine steps one code unit forward before it searches again.
\<close>

function rxScan :: "rx \<Rightarrow> jstring \<Rightarrow> nat option \<Rightarrow> jstring \<Rightarrow> (jstring \<times> jstring) list \<times> jstring" where
  "rxScan r gap b [] =
     (case rxm r (b, [], None) of
        [] \<Rightarrow> ([], gap)
      | _ # _ \<Rightarrow> ([(gap, [])], []))"
| "rxScan r gap b (x # s) =
     (case rxm r (b, x # s, None) of
        [] \<Rightarrow> rxScan r (gap @ [x]) (Some x) s
      | (b', s', c) # _ \<Rightarrow>
          if length s' \<le> length s then
            (case rxScan r [] b' s' of
               (segs, rest) \<Rightarrow> ((gap, take (length (x # s) - length s') (x # s)) # segs, rest))
          else
            (case rxScan r [x] (Some x) s of
               (segs, rest) \<Rightarrow> ((gap, []) # segs, rest)))"
  by pat_completeness auto
termination
  by (relation "measure (\<lambda>(r, gap, b, s). length s)") auto

text \<open>\<open>s.match(re)\<close> with the \<open>g\<close> flag: all matched texts, or \<open>null\<close> when there are none.\<close>

definition rxMatchAll :: "rx \<Rightarrow> jstring \<Rightarrow> jstring list option" where
  "rxMatchAll r s =
     (case fst (rxScan r [] None s) of [] \<Rightarrow> None | m # ms \<Rightarrow> Some (map snd (m # ms)))"

text \<open>\<open>s.replace(re, tok)\<close> with the \<open>g\<close> flag; \<open>tok\<close> holds no \<open>$\<close> pattern.\<close>

definition rxReplaceAll :: "rx \<Rightarrow> jstring \<Rightarrow> jstring \<Rightarrow> jstring" where
  "rxReplaceAll r tok s =
     (case rxScan r [] None s of (segs, rest) \<Rightarrow> concat (map (\<lambda>(gap, m). gap @ tok) segs) @ rest)"

text \<open>\<open>s.replace(re, tok)\<close> without the \<open>g\<close> flag: the first match only.\<close>

definition rxReplaceFirst :: "rx \<Rightarrow> jstring \<Rightarrow> jstring \<Rightarrow> jstring" where
  "rxReplaceFirst r tok s =
     (case rxSearch r [] None s of
        None \<Rightarrow> s
      | Some (pre, m, c, b', s') \<Rightarrow> pre @ tok @ s')"

text \<open>
  \<open>s.split(re)\<close> for a separator that cannot match the empty string (both separators of
  the source end in \<open>+\<close>): the pieces between the successive matches.
\<close>

definition rxSplit :: "rx \<Rightarrow> jstring \<Rightarrow> jstring list" where
  "rxSplit r s = (case rxScan r [] None s of (segs, rest) \<Rightarrow> map fst segs @ [rest])"

section \<open>Taxonomy and lexicon (wikipedia.ts)\<close>

datatype WikiCategory = Shock | Civilization | Struggle | Origins

definition MAX_RESULTS :: nat where
  "MAX_RESULTS = 30"

definition SHOCK_KW :: "jstring list" where
  "SHOCK_KW =
     [asc ''massacre'', asc ''ex'' @ [233] @ asc ''cution'', asc ''pogrom'',
      asc ''rafle'', asc ''g'' @ [233] @ asc ''nocide'', asc ''attentat'',
      asc ''assassinat'', asc ''torture'', asc ''d'' @ [233] @ asc ''portation'',
      asc ''pers'' @ [233] @ asc ''cution'', asc ''esclavage'', asc ''bombardement'',
      asc ''extermination'', asc ''fusillade'', asc ''noyade'']"

definition SHOCK_VERBS :: "jstring list" where
  "SHOCK_VERBS =
     [asc ''assassin'', asc ''ex'' @ [233] @ asc ''cut'', asc ''massacr'',
      asc ''fusill'', asc ''pendu'', asc ''noy'' @ [233],
      asc ''br'' @ [251] @ asc ''l'' @ [233], asc ''tortur'',
      asc ''d'' @ [233] @ asc ''port'', asc ''extermin'']"

definition MEMORIAL_KW :: "jstring list" where
  "MEMORIAL_KW =
     [asc ''camp de concentration'', asc ''camp d'' @ [39] @ asc ''extermination'',
      asc ''camp de la mort'', asc ''d'' @ [233] @ asc ''portation'',
      asc ''extermination'', asc ''goulag'', asc ''charnier'',
      asc ''chambre '' @ [224] @ asc '' gaz'', asc ''shoah'', asc ''holocauste'',
      asc ''solution finale'']"

definition CIVILIZATION_KW :: "jstring list" where
  "CIVILIZATION_KW =
     [asc ''empire'', asc ''trait'' @ [233], asc ''dynastie'', asc ''fondation'',
      asc ''couronnement'', asc ''proclamation'', asc ''constitution'',
      asc ''cath'' @ [233] @ asc ''drale'', asc ''palais'', asc ''forteresse'',
      asc ''antiquit'' @ [233], asc ''romain'', asc ''pharaon'', asc ''civilisation'',
      asc ''royaume'', asc ''signature'', asc ''alliance'', asc ''armistice'',
      asc ''capitulation'']"

definition STRUGGLE_KW :: "jstring list" where
  "STRUGGLE_KW =
     [asc ''gr'' @ [232] @ asc ''ve'', asc ''manifestation'',
      asc ''r'' @ [233] @ asc ''sistance'', asc ''insurrection'',
      asc ''r'' @ [233] @ asc ''volte'', asc ''r'' @ [233] @ asc ''volution'',
      asc ''barricade'', asc ''soul'' @ [232] @ asc ''vement'', asc ''droits civiques'',
      [233] @ asc ''mancipation'', asc ''lib'' @ [233] @ asc ''ration'',
      asc ''ind'' @ [233] @ asc ''pendance'', asc ''r'' @ [233] @ asc ''pression'',
      asc ''censure'', asc ''s'' @ [233] @ asc ''gr'' @ [233] @ asc ''gation'',
      asc ''occult'' @ [233], asc ''bavure'', asc ''colonisation'']"

definition ORIGINS_KW :: "jstring list" where
  "ORIGINS_KW =
     [asc ''arch'' @ [233] @ asc ''ologie'', asc ''pr'' @ [233] @ asc ''histoire'',
      asc ''n'' @ [233] @ asc ''olithique'', asc ''pal'' @ [233] @ asc ''olithique'',
      asc ''migration'', asc ''m'' @ [233] @ asc ''galithe'', asc ''grotte'',
      asc ''fossile'', asc ''s'' @ [233] @ asc ''pulture'', asc ''dolmen'',
      asc ''menhir'', asc ''cit'' @ [233] @ asc '' antique'', asc ''ruines'',
      asc ''vestige'', [226] @ asc ''ge du bronze'', [226] @ asc ''ge du fer'']"

definition IMPACT_KW :: "jstring list" where
  "IMPACT_KW =
     [asc ''victimes'', asc ''morts'', asc ''tu'' @ [233] @ asc ''s'',
      asc ''bless'' @ [233] @ asc ''s'', asc ''disparus'',
      asc ''fusill'' @ [233] @ asc ''s'', asc ''pendus'',
      asc ''noy'' @ [233] @ asc ''s'',
      asc ''br'' @ [251] @ asc ''l'' @ [233] @ asc ''s'',
      asc ''d'' @ [233] @ asc ''tenus'', asc ''prisonniers'']"

definition ALL_VERBS :: "jstring list" where
  "ALL_VERBS =
     [asc ''assassin'', asc ''proclam'', asc ''envahi'', asc ''sign'',
      asc ''d'' @ [233] @ asc ''couvr'', asc ''soulev'', asc ''conqui'',
      asc ''d'' @ [233] @ asc ''tru'', asc ''incendi'', asc ''bombard'',
      asc ''lib'' @ [233] @ asc ''r'', asc ''occup'', asc ''ex'' @ [233] @ asc ''cut'',
      asc ''massacr'', asc ''fusill'', asc ''d'' @ [233] @ asc ''port'', asc ''resist'',
      asc ''revolt'', asc ''fond'', asc ''constru'', [233] @ asc ''rig'',
      asc ''b'' @ [226] @ asc ''ti'']"

definition GEO_PENALTIES :: "jstring list" where
  "GEO_PENALTIES =
     [asc ''commune de'', asc ''code postal'', asc ''montagne'', asc ''sommet'',
      asc ''fleuve'', asc ''altitude'', asc ''km'' @ [178],
      asc ''rivi'' @ [232] @ asc ''re'', asc ''affluent'', asc ''bassin versant'',
      asc ''d'' @ [233] @ asc ''partement'', asc ''arrondissement'', asc ''canton de'',
      asc ''intercommunalit'' @ [233]]"

definition CHURCH_WORDS :: "jstring list" where
  "CHURCH_WORDS =
     [[233] @ asc ''glise'', asc ''paroisse'', [233] @ asc ''difice'', asc ''chapelle'']"

definition SPORT_BLACKLIST :: "jstring list" where
  "SPORT_BLACKLIST =
     [asc ''football'', asc ''stade'', asc ''match'', asc ''olympique'',
      asc ''club sportif'', asc ''championnat'', asc ''ligue'', asc ''coupe du monde'',
      asc ''rugby'', asc ''tennis'', asc ''natation'',
      asc ''athl'' @ [233] @ asc ''tisme'', asc ''gymnase'']"

definition SPORT_EXCEPTIONS :: "jstring list" where
  "SPORT_EXCEPTIONS =
     [asc ''ex'' @ [233] @ asc ''cution'', asc ''prisonnier'',
      asc ''d'' @ [233] @ asc ''tenu'', asc ''massacre'', asc ''internement'',
      asc ''d'' @ [233] @ asc ''portation'', asc ''camp'', asc ''fusillade'',
      asc ''m'' @ [233] @ asc ''morial'']"

definition KEYWORD_SEARCHES :: "jstring list" where
  "KEYWORD_SEARCHES =
     [asc ''massacre'', asc ''pogrom'', asc ''r'' @ [233] @ asc ''volte'',
      asc ''insurrection'', asc ''bombardement'', asc ''lib'' @ [233] @ asc ''ration'',
      asc ''trait'' @ [233], asc ''camp de concentration'']"

section \<open>Temporal extractor\<close>

definition ROMAN_TO_NUM :: "(jstring \<times> int) list" where
  "ROMAN_TO_NUM =
     [(asc ''I'', 1), (asc ''II'', 2), (asc ''III'', 3), (asc ''IV'', 4), (asc ''V'', 5),
      (asc ''VI'', 6), (asc ''VII'', 7), (asc ''VIII'', 8), (asc ''IX'', 9), (asc ''X'', 10),
      (asc ''XI'', 11), (asc ''XII'', 12), (asc ''XIII'', 13), (asc ''XIV'', 14),
      (asc ''XV'', 15), (asc ''XVI'', 16), (asc ''XVII'', 17), (asc ''XVIII'', 18),
      (asc ''XIX'', 19), (asc ''XX'', 20), (asc ''XXI'', 21)]"

text \<open>
  \<open>toUpperCase\<close> on a captured Roman numeral: the group holds only the letters X, I
  and V in either case, on which the built-in is the ASCII mapping.
\<close>

definition upperAscii :: "jstring \<Rightarrow> jstring" where
  "upperAscii s = map (\<lambda>c. if 97 \<le> c \<and> c \<le> 122 then c - 32 else c) s"

definition ciUnit :: "nat \<Rightarrow> nat \<Rightarrow> bool" where
  "ciUnit k c = (c = k \<or> c = otherCase k)"

definition siecle :: jstring where
  "siecle = asc ''si'' @ [232] @ asc ''cle''"

text \<open>\<open>/(\d{1,4})\s*av(?:ant)?\.?\s*J\.?-?C\.?/i\<close>\<close>

definition bcRe :: rx where
  "bcRe = seqs [Cap (Rep 1 (Some 4) isDigit), Star isSpace, litI (asc ''av''),
                Opt (litI (asc ''ant'')), OptC (\<lambda>c. c = 46), Star isSpace, ChI 74,
                OptC (\<lambda>c. c = 46), OptC (\<lambda>c. c = 45), ChI 67, OptC (\<lambda>c. c = 46)]"

text \<open>\<open>/\b(\d{3,4})\b/g\<close>\<close>

definition yearRe :: rx where
  "yearRe = seqs [WordB, Cap (Rep 3 (Some 4) isDigit), WordB]"

text \<open>\<open>X{0,3}(?:IX|IV|V?I{0,3})\<close> under the \<open>i\<close> flag.\<close>

definition romanRx :: rx where
  "romanRx =
     Seq (Rep 0 (Some 3) (ciUnit 88))
         (Alt (litI (asc ''IX''))
              (Alt (litI (asc ''IV''))
                   (Seq (OptC (ciUnit 86)) (Rep 0 (Some 3) (ciUnit 73)))))"

text \<open>\<open>/\b(X{0,3}(?:IX|IV|V?I{0,3}))e\s*si\`ecle\s*av/i\<close>\<close>

definition bcRomanRe :: rx where
  "bcRomanRe = seqs [WordB, Cap romanRx, ChI 101, Star isSpace, litI siecle,
                     Star isSpace, litI (asc ''av'')]"

text \<open>\<open>/\b(X{0,3}(?:IX|IV|V?I{0,3}))e\s*si\`ecle/i\<close>\<close>

definition romanRe :: rx where
  "romanRe = seqs [WordB, Cap romanRx, ChI 101, Star isSpace, litI siecle]"

text \<open>\<open>/\b(\d{1,2})(?:e|\`eme)\s*si\`ecle/i\<close>\<close>

definition numCenturyRe :: rx where
  "numCenturyRe = seqs [WordB, Cap (Rep 1 (Some 2) isDigit),
                        Alt (ChI 101) (litI ([232] @ asc ''me'')), Star isSpace, litI siecle]"

text \<open>
  The lookup \<open>ROMAN_TO_NUM[group.toUpperCase()]\<close> followed by \<open>if (n)\<close>: a missing key
  gives \<open>undefined\<close>, which is falsy; every value of the table is truthy.
\<close>

definition romanValue :: "rx \<Rightarrow> jstring \<Rightarrow> int option" where
  "romanValue re text =
     (case rxGroup re text of
        None \<Rightarrow> None
      | Some g \<Rightarrow> map_of ROMAN_TO_NUM (upperAscii g))"

definition extractCenturyYear :: "jstring \<Rightarrow> int option" where
  "extractCenturyYear text =
     (case romanValue bcRomanRe text of
        Some n \<Rightarrow> Some (- (n * 100 - 50))
      | None \<Rightarrow>
         (case romanValue romanRe text of
            Some n \<Rightarrow> Some (n * 100 - 50)
          | None \<Rightarrow>
             (case rxGroup numCenturyRe text of
                None \<Rightarrow> None
              | Some g \<Rightarrow>
                  (let n = int (parseInt g)
                   in if 1 \<le> n \<and> n \<le> 21 then Some (n * 100 - 50) else None))))"

text \<open>
  \<open>extractYear\<close> returns \<open>number | null\<close>: \<open>None\<close> is \<open>null\<close>. The first branch
  returns \<open>-parseInt(...)\<close>, which for the digits of zero is the number \<open>-0\<close>; like
  \<open>0\<close> it is falsy, neither positive nor negative, and is modelled as the integer \<open>0\<close>.
\<close>

definition extractYear :: "jstring \<Rightarrow> int option" where
  "extractYear text =
     (case rxGroup bcRe text of
        Some g \<Rightarrow> Some (- int (parseInt g))
      | None \<Rightarrow>
         (let years = (case rxMatchAll yearRe text of
                         None \<Rightarrow> []
                       | Some ms \<Rightarrow> filter (\<lambda>y. 100 \<le> y \<and> y \<le> 2025) (map parseInt ms))
          in case years of
               y # ys \<Rightarrow> Some (int (fold min ys y))
             | [] \<Rightarrow> extractCenturyYear text))"

section \<open>Scoring and classification\<close>

definition hasVerb :: "(jstring \<Rightarrow> jstring) \<Rightarrow> jstring \<Rightarrow> bool" where
  "hasVerb lc text = someIn ALL_VERBS (lc text)"

text \<open>
  \<open>tl.indexOf(w, idx)\<close>: the first position at or after \<open>idx\<close> at which \<open>w\<close> occurs,
  \<open>None\<close> for \<open>-1\<close>. A start beyond the end is clamped to the end.
\<close>

definition indexOf :: "jstring \<Rightarrow> jstring \<Rightarrow> nat \<Rightarrow> nat option" where
  "indexOf s w idx =
     find (\<lambda>i. startsWith w (drop i s)) [min idx (length s) ..< Suc (length s)]"

text \<open>
  The inner loop of \<open>countOccurrences\<close>:
  \<open>while ((idx = tl.indexOf(w, idx)) !== -1) { count++; idx += w.length; }\<close>.
  On the empty word the loop of the source never ends; the value \<open>None\<close> stands for
  not returning.
\<close>

partial_function (option) occLoop :: "jstring \<Rightarrow> jstring \<Rightarrow> nat \<Rightarrow> nat \<Rightarrow> nat option" where
  "occLoop s w idx n =
     (case indexOf s w idx of
        None \<Rightarrow> Some n
      | Some i \<Rightarrow> occLoop s w (i + length w) (n + 1))"

declare occLoop.simps [code]

fun countWords :: "jstring \<Rightarrow> jstring list \<Rightarrow> nat \<Rightarrow> nat option" where
  "countWords s [] n = Some n"
| "countWords s (w # ws) n =
     (case occLoop s w 0 n of None \<Rightarrow> None | Some n' \<Rightarrow> countWords s ws n')"

definition countOccurrences :: "(jstring \<Rightarrow> jstring) \<Rightarrow> jstring \<Rightarrow> jstring list \<Rightarrow> nat option" where
  "countOccurrences lc text ws = countWords (lc text) ws 0"

text \<open>
  \<open>classify\<close>: the four weighted hit counts, sorted by decreasing score with the stable
  sort of the language, so that among equal scores the earlier category stays first.
\<close>

definition classify :: "jstring \<Rightarrow> WikiCategory \<times> int" where
  "classify full =
     (let shockHits = hitsIn SHOCK_KW full;
          shockVerbHits = hitsIn SHOCK_VERBS full;
          civHits = hitsIn CIVILIZATION_KW full;
          struggleHits = hitsIn STRUGGLE_KW full;
          originsHits = hitsIn ORIGINS_KW full;
          scores = [(Shock, shockHits * 25 + shockVerbHits * 20),
                    (Civilization, civHits * 12),
                    (Struggle, struggleHits * 20),
                    (Origins, originsHits * 5)]
      in case sort_key (\<lambda>p. - snd p) scores of
           [] \<Rightarrow> (Civilization, 0)
         | (c, s) # _ \<Rightarrow> if s = 0 then (Civilization, 0) else (c, s))"

text \<open>
  The \<open>reason\<close> of a result is a log message built from a template; the model keeps
  which template it is and the values interpolated into it.
\<close>

datatype Reason =
    BoostMemoriel int
  | AntiEglise nat
  | SportMineur int
  | MalusGeo jstring
  | PasDeDate
  | Retenu WikiCategory int int bool bool

record ScoreResult =
  score :: int
  rejected :: bool
  reason :: Reason
  cat :: WikiCategory

text \<open>
  \<open>Math.round(score / 5)\<close> for an integer score: the quotient is never halfway between
  two integers, so rounding to nearest is unambiguous.
\<close>

definition roundDiv5 :: "int \<Rightarrow> int" where
  "roundDiv5 n = (2 * n + 5) div 10"

text \<open>
  \<open>computeScore\<close>. The variable \<open>score\<close> of the source is updated in place; the model
  names its successive values \<open>score0\<close> to \<open>score8\<close>. \<open>!year\<close> holds for \<open>null\<close> and
  for zero. The result is \<open>None\<close> only if the occurrence count does not return.
\<close>

definition titleRoyal :: "(jstring \<Rightarrow> jstring) \<Rightarrow> jstring \<Rightarrow> bool" where
  "titleRoyal lc title =
     (let titleLower = lc title;
          titleHasShock = someIn SHOCK_KW titleLower;
          titleHasCiv = someIn CIVILIZATION_KW titleLower;
          titleHasStruggle = someIn STRUGGLE_KW titleLower
      in titleHasShock \<or> titleHasCiv \<or> titleHasStruggle)"

definition baseScoring ::
  "(jstring \<Rightarrow> jstring) \<Rightarrow> jstring \<Rightarrow> jstring \<Rightarrow> int \<Rightarrow> jstring \<Rightarrow> bool \<Rightarrow> bool \<Rightarrow> ScoreResult" where
  "baseScoring lc title extract langs full sportMalus hasAction =
     (case classify full of (c, catScore) \<Rightarrow>
      let hasAnyKeyword = (catScore > 0) in
      case find (\<lambda>kw. str_includes full kw \<and> \<not> hasAnyKeyword) GEO_PENALTIES of
        Some kw \<Rightarrow> \<lparr>score = - 15, rejected = True, reason = MalusGeo kw, cat = c\<rparr>
      | None \<Rightarrow>
         (let score0 = 10 + catScore;
              score1 = (if titleRoyal lc title then score0 + 500 else score0);
              score2 = (if sportMalus then score1 - 50 else score1);
              score3 = (if someIn GEO_PENALTIES full then score2 - 10 else score2);
              impactHits = hitsIn IMPACT_KW full;
              score4 = score3 + impactHits * 15;
              score5 = (if hasAction then score4 + 10 else score4);
              year = extractYear extract
          in if (year = None \<or> year = Some 0) \<and> \<not> hasAnyKeyword then
               \<lparr>score = 0, rejected = True, reason = PasDeDate, cat = c\<rparr>
             else
               (let score6 = (if length extract > 200 then score5 + 5 else score5);
                    score7 = (if length extract > 500 then score6 + 5 else score6);
                    score8 = (if c = Origins \<and> langs < 30 then roundDiv5 score7 else score7)
                in \<lparr>score = score8, rejected = False,
                    reason = Retenu c catScore (impactHits * 15) (titleRoyal lc title)
                                    (c = Origins \<and> langs < 30),
                    cat = c\<rparr>)))"

definition computeScore ::
  "(jstring \<Rightarrow> jstring) \<Rightarrow> jstring \<Rightarrow> jstring \<Rightarrow> int \<Rightarrow> ScoreResult option" where
  "computeScore lc title extract langs =
     (let full = lc (title @ [32] @ extract);
          isMemorial = someIn MEMORIAL_KW full
      in if isMemorial then
           (let impactHits = hitsIn IMPACT_KW full;
                base = 100 + impactHits * 15
            in Some \<lparr>score = base * 10, rejected = False,
                     reason = BoostMemoriel (impactHits * 15), cat = Shock\<rparr>)
         else
           (case countOccurrences lc full CHURCH_WORDS of
              None \<Rightarrow> None
            | Some churchCount \<Rightarrow>
               (let hasAction = hasVerb lc full;
                    hasConflict = someIn (SHOCK_KW @ STRUGGLE_KW) full
                in if churchCount > 3 \<and> \<not> hasAction \<and> \<not> hasConflict then
                     Some \<lparr>score = 0, rejected = True, reason = AntiEglise churchCount,
                           cat = Civilization\<rparr>
                   else
                     (let isSport = someIn SPORT_BLACKLIST full;
                          hasSportException = someIn SPORT_EXCEPTIONS full
                      in if isSport \<and> \<not> hasSportException \<and> langs < 20 then
                           Some \<lparr>score = - 100, rejected = True, reason = SportMineur langs,
                                 cat = Civilization\<rparr>
                         else
                           Some (baseScoring lc title extract langs full
                                   (isSport \<and> \<not> hasSportException) hasAction)))))"

section \<open>Title and description of an event\<close>

text \<open>
  \<open>formatCenturyLabel\<close>: the label is built from the captured group as it stands.
  For an Arabic ordinal the Roman numeral is looked up by value.
\<close>

definition formatCenturyLabel :: "jstring \<Rightarrow> jstring option" where
  "formatCenturyLabel text =
     (case rxGroup bcRomanRe text of
        Some g \<Rightarrow> Some (g @ asc ''e av. J.-C.'')
      | None \<Rightarrow>
         (case rxGroup romanRe text of
            Some g \<Rightarrow> Some (g @ asc ''e'')
          | None \<Rightarrow>
             (case rxGroup numCenturyRe text of
                None \<Rightarrow> None
              | Some g \<Rightarrow>
                  (let n = parseInt g
                   in case find (\<lambda>(k, v). v = int n) ROMAN_TO_NUM of
                        Some (k, v) \<Rightarrow> Some (k @ asc ''e'')
                      | None \<Rightarrow> Some (showNat n @ asc ''e'')))))"

definition formatTitle :: "jstring \<Rightarrow> int option \<Rightarrow> jstring \<Rightarrow> jstring" where
  "formatTitle rawTitle yr extract =
     (let byLabel = (case formatCenturyLabel (rawTitle @ [32] @ extract) of
                       None \<Rightarrow> rawTitle
                     | Some label \<Rightarrow>
                         if label \<noteq> [] then asc ''('' @ label @ asc '') '' @ rawTitle
                         else rawTitle)
      in case yr of
           None \<Rightarrow> byLabel
         | Some y \<Rightarrow>
             if y > 0 then asc ''('' @ showNat (nat y) @ asc '') '' @ rawTitle
             else if y < 0 then asc ''('' @ showNat (nat (abs y)) @ asc '' av. J.-C.) '' @ rawTitle
             else byLabel)"

text \<open>\<open>/(?<=[.!?])\s+/\<close>, the separator of sentences.\<close>

definition sentenceSep :: rx where
  "sentenceSep = Seq (Behind (\<lambda>c. c = 46 \<or> c = 33 \<or> c = 63)) (Plus isSpace)"

text \<open>\<open>/\b\d{3,4}\b/\<close> and \<open>/si\`ecle/i\<close>, the tests for a date in a sentence.\<close>

definition dateRe :: rx where
  "dateRe = seqs [WordB, Rep 3 (Some 4) isDigit, WordB]"

definition siecleRe :: rx where
  "siecleRe = litI siecle"

definition allKW :: "jstring list" where
  "allKW = SHOCK_KW @ CIVILIZATION_KW @ STRUGGLE_KW @ ORIGINS_KW @ IMPACT_KW"

text \<open>
  \<open>sentences.slice(sentences.findIndex(p))\<close> when an index is found: the sentences
  from the first one that satisfies \<open>p\<close>; the empty list when none does.
\<close>

definition sliceFromFirst :: "('a \<Rightarrow> bool) \<Rightarrow> 'a list \<Rightarrow> 'a list" where
  "sliceFromFirst p xs = dropWhile (\<lambda>x. \<not> p x) xs"

text \<open>The last loop of \<open>trimExtract\<close>: the first keyword, in lexicon order, that some sentence holds.\<close>

fun firstKwSlice :: "(jstring \<Rightarrow> jstring) \<Rightarrow> jstring list \<Rightarrow> jstring list \<Rightarrow> jstring list option" where
  "firstKwSlice lc sentences [] = None"
| "firstKwSlice lc sentences (kw # kws) =
     (case sliceFromFirst (\<lambda>s. str_includes (lc s) kw) sentences of
        [] \<Rightarrow> firstKwSlice lc sentences kws
      | s # ss \<Rightarrow> Some (s # ss))"

definition trimExtract :: "(jstring \<Rightarrow> jstring) \<Rightarrow> jstring \<Rightarrow> int option \<Rightarrow> jstring" where
  "trimExtract lc extract yr =
     (let sentences = rxSplit sentenceSep extract;
          dated = sliceFromFirst
                    (\<lambda>s. let sl = lc s;
                              hasDate = (rxTest dateRe s \<or> rxTest siecleRe s);
                              hasKw = (someIn allKW sl \<or> hasVerb lc sl)
                          in hasDate \<and> hasKw) sentences
      in case dated of
           s # ss \<Rightarrow> take 500 (joinSp (s # ss))
         | [] \<Rightarrow>
            (let byYear = (case yr of
                             None \<Rightarrow> []
                           | Some y \<Rightarrow>
                               if y > 0
                               then sliceFromFirst (\<lambda>s. str_includes s (showNat (nat y))) sentences
                               else [])
             in case byYear of
                  s # ss \<Rightarrow> take 500 (joinSp (s # ss))
                | [] \<Rightarrow>
                   (case firstKwSlice lc sentences allKW of
                      Some rest \<Rightarrow> take 500 (joinSp rest)
                    | None \<Rightarrow> take 500 extract)))"

section \<open>Discovery orchestrator\<close>

text \<open>
  Identifiers and language counts are integers. Coordinates and the radius are
  floating-point numbers of the source; the model carries them as reals and no property
  below depends on their arithmetic.
\<close>

record GeoSearchResult =
  geo_pageid :: nat
  geo_title :: jstring
  geo_lat :: real
  geo_lon :: real
  geo_dist :: real

record PageExtract =
  pe_pageid :: nat
  pe_title :: jstring
  pe_extract :: "jstring option"

record WikiEvent =
  ev_id :: nat
  ev_title :: jstring
  ev_description :: jstring
  ev_lat :: real
  ev_lng :: real
  ev_year :: "int option"
  ev_category :: WikiCategory
  ev_score :: int
  ev_notorietyScore :: int
  ev_isIncontournable :: bool

text \<open>
  What the module takes from outside: the built-in \<open>toLowerCase\<close>, the formatting
  of a grid key by \<open>toFixed(2)\<close>, the floating-point product
  \<open>Math.round(baseScore * (1 + Math.log2(Math.max(1, langs)) * 0.3))\<close>, and the
  answers of the four network calls. Each call fails soft in the source (an empty list
  or map on any error), so an answer is always a value. An answer is a function of the
  request; within one run no request is sent twice.
\<close>

record env =
  toLower :: "jstring \<Rightarrow> jstring"
  gridKey :: "real \<Rightarrow> real \<Rightarrow> jstring"
  notorietyRound :: "int \<Rightarrow> int \<Rightarrow> int"
  api_geosearch :: "real \<Rightarrow> real \<Rightarrow> real \<Rightarrow> nat \<Rightarrow> GeoSearchResult list"
  api_keywordSearch :: "jstring \<Rightarrow> real \<Rightarrow> real \<Rightarrow> GeoSearchResult list"
  api_fetchExtracts :: "nat list \<Rightarrow> (nat \<rightharpoonup> PageExtract)"
  api_fetchLangCounts :: "nat list \<Rightarrow> (nat \<rightharpoonup> int)"

text \<open>The two process-wide caches; \<open>Some None\<close> in the article cache is a tombstone.\<close>

record caches =
  articleCache :: "nat \<rightharpoonup> WikiEvent option"
  gridCache :: "jstring set"

definition SHADOW_LIMIT :: nat where
  "SHADOW_LIMIT = 150"

definition geosearch :: "env \<Rightarrow> real \<Rightarrow> real \<Rightarrow> real \<Rightarrow> nat \<Rightarrow> GeoSearchResult list" where
  "geosearch e la lo radius limit =
     (let r = min 10000 (max 10 radius)
      in api_geosearch e la lo r (min limit 500))"

definition buildGrid :: "real \<Rightarrow> real \<Rightarrow> (real \<times> real) list" where
  "buildGrid la lo =
     (let offsetDeg = 0.18
      in [(la, lo), (la + offsetDeg, lo), (la - offsetDeg, lo),
          (la, lo + offsetDeg), (la, lo - offsetDeg)])"

text \<open>
  The merge into \<open>uniqueMap\<close>: a candidate is kept when its id is neither already in
  the map nor in the article cache. The list keeps the insertion order of the map.
\<close>

fun mergeUnique :: "(nat \<rightharpoonup> WikiEvent option) \<Rightarrow> GeoSearchResult list \<Rightarrow> GeoSearchResult list
                    \<Rightarrow> GeoSearchResult list" where
  "mergeUnique cache acc [] = acc"
| "mergeUnique cache acc (g # gs) =
     (if geo_pageid g \<notin> set (map geo_pageid acc) \<and> cache (geo_pageid g) = None
      then mergeUnique cache (acc @ [g]) gs
      else mergeUnique cache acc gs)"

text \<open>
  The scoring loop over the candidates, threading the article cache and the list
  \<open>scored\<close>. \<open>None\<close> stands for a run in which \<open>computeScore\<close> does not return.
\<close>

fun scoreLoop :: "env \<Rightarrow> (nat \<rightharpoonup> PageExtract) \<Rightarrow> (nat \<rightharpoonup> int) \<Rightarrow> nat set
                  \<Rightarrow> GeoSearchResult list \<Rightarrow> (nat \<rightharpoonup> WikiEvent option) \<times> WikiEvent list
                  \<Rightarrow> ((nat \<rightharpoonup> WikiEvent option) \<times> WikiEvent list) option" where
  "scoreLoop e extracts langCounts kwPageIds [] acc = Some acc"
| "scoreLoop e extracts langCounts kwPageIds (g # gs) (cache, scored) =
     (let ext = extracts (geo_pageid g);
          rawExtract = (case ext of
                          None \<Rightarrow> []
                        | Some p \<Rightarrow> (case pe_extract p of None \<Rightarrow> [] | Some x \<Rightarrow> x));
          rawTitle = (case ext of None \<Rightarrow> geo_title g | Some p \<Rightarrow> pe_title p);
          langs = (case langCounts (geo_pageid g) of None \<Rightarrow> 0 | Some n \<Rightarrow> n);
          fromKw = (geo_pageid g \<in> kwPageIds)
      in case computeScore (toLower e) rawTitle rawExtract langs of
           None \<Rightarrow> None
         | Some r \<Rightarrow>
            if rejected r then
              scoreLoop e extracts langCounts kwPageIds gs (cache(geo_pageid g \<mapsto> None), scored)
            else
              (let baseScore = score r;
                   isAlreadyBoosted = (baseScore \<ge> 1000);
                   finalScore = (if isAlreadyBoosted then baseScore
                                 else notorietyRound e baseScore langs)
               in if cat r = Origins \<and> langs < 15 \<and> \<not> fromKw then
                    scoreLoop e extracts langCounts kwPageIds gs
                      (cache(geo_pageid g \<mapsto> None), scored)
                  else
                    (let yr = extractYear rawExtract;
                         description = trimExtract (toLower e) rawExtract yr;
                         title = formatTitle rawTitle yr rawExtract;
                         event = \<lparr>ev_id = geo_pageid g, ev_title = title,
                                  ev_description = description, ev_lat = geo_lat g,
                                  ev_lng = geo_lon g, ev_year = yr, ev_category = cat r,
                                  ev_score = finalScore, ev_notorietyScore = langs,
                                  ev_isIncontournable = fromKw\<rparr>
                     in scoreLoop e extracts langCounts kwPageIds gs
                          (cache(geo_pageid g \<mapsto> Some event), scored @ [event]))))"

text \<open>
  \<open>fetchWikiEvents\<close> returns the events and leaves the caches updated. The sort of
  the language is stable and its comparator \<open>b.score - a.score\<close> orders by decreasing
  score: \<open>sort_key\<close> on the negated score.
\<close>

definition fetchWikiEvents :: "env \<Rightarrow> caches \<Rightarrow> real \<Rightarrow> real \<Rightarrow> real
                                \<Rightarrow> (WikiEvent list \<times> caches) option" where
  "fetchWikiEvents e st la lo radius =
     (let grid = buildGrid la lo;
          newPoints = filter (\<lambda>(pla, plo). gridKey e pla plo \<notin> gridCache st) grid
      in if newPoints = [] then Some ([], st)
         else
           (let grid' = gridCache st \<union> set (map (\<lambda>(pla, plo). gridKey e pla plo) newPoints);
                allGeoResults = map (\<lambda>(pla, plo). geosearch e pla plo (min radius 10000) SHADOW_LIMIT)
                                    newPoints;
                allKwResults = map (\<lambda>kw. api_keywordSearch e kw la lo) KEYWORD_SEARCHES;
                kwPageIds = set (map geo_pageid (concat allKwResults));
                geoResults = mergeUnique (articleCache st) []
                               (concat (allGeoResults @ allKwResults))
            in if geoResults = [] then Some ([], st\<lparr>gridCache := grid'\<rparr>)
               else
                 (let pageids = map geo_pageid geoResults;
                      extracts = api_fetchExtracts e pageids;
                      langCounts = api_fetchLangCounts e pageids
                  in case scoreLoop e extracts langCounts kwPageIds geoResults
                            (articleCache st, []) of
                       None \<Rightarrow> None
                     | Some (cache', scored) \<Rightarrow>
                         (let sorted = sort_key (\<lambda>ev. - ev_score ev) scored;
                              top = take MAX_RESULTS sorted
                          in Some (top, \<lparr>articleCache = cache', gridCache = grid'\<rparr>)))))"

section \<open>Quiz generator (game engine)\<close>

datatype Difficulty = Easy | Hard

record Hints =
  h_category :: WikiCategory
  h_year :: "int option"
  h_actions :: "jstring list"

record QuizQuestion =
  q_eventId :: jstring
  q_correctTitle :: jstring
  q_maskedDescription :: jstring
  q_hints :: Hints
  q_options :: "jstring list"
  q_difficulty :: Difficulty

definition VERB_MAP :: "(jstring \<times> jstring) list" where
  "VERB_MAP =
     [(asc ''assassin'', asc ''assassiner''),
      (asc ''proclam'', asc ''proclamer''),
      (asc ''envahi'', asc ''envahir''),
      (asc ''sign'', asc ''signer''),
      (asc ''d'' @ [233] @ asc ''couvr'', asc ''d'' @ [233] @ asc ''couvrir''),
      (asc ''soulev'', asc ''se soulever''),
      (asc ''conqui'', asc ''conqu'' @ [233] @ asc ''rir''),
      (asc ''d'' @ [233] @ asc ''tru'', asc ''d'' @ [233] @ asc ''truire''),
      (asc ''incendi'', asc ''incendier''),
      (asc ''bombard'', asc ''bombarder''),
      (asc ''lib'' @ [233] @ asc ''r'', asc ''lib'' @ [233] @ asc ''rer''),
      (asc ''occup'', asc ''occuper''),
      (asc ''ex'' @ [233] @ asc ''cut'', asc ''ex'' @ [233] @ asc ''cuter''),
      (asc ''massacr'', asc ''massacrer''),
      (asc ''fusill'', asc ''fusiller''),
      (asc ''d'' @ [233] @ asc ''port'', asc ''d'' @ [233] @ asc ''porter''),
      (asc ''resist'', asc ''r'' @ [233] @ asc ''sister''),
      (asc ''revolt'', asc ''se r'' @ [233] @ asc ''volter''),
      (asc ''fond'', asc ''fonder''),
      (asc ''constru'', asc ''construire''),
      ([233] @ asc ''rig'', [233] @ asc ''riger''),
      (asc ''b'' @ [226] @ asc ''ti'', asc ''b'' @ [226] @ asc ''tir'')]"

definition VERB_RADICALS :: "jstring list" where
  "VERB_RADICALS = map fst VERB_MAP"

definition STOP_WORDS :: "jstring list" where
  "STOP_WORDS =
     [asc ''de'', asc ''du'', asc ''des'', asc ''le'', asc ''la'', asc ''les'',
      asc ''un'', asc ''une'', asc ''au'', asc ''aux'', asc ''en'', asc ''et'',
      asc ''ou'', asc ''par'', asc ''pour'', asc ''sur'', asc ''dans'', asc ''avec'',
      asc ''sans'', asc ''sous'', asc ''entre'', asc ''vers'', asc ''qui'', asc ''que'',
      asc ''dont'', asc ''son'', asc ''ses'', asc ''leur'', asc ''ce'', asc ''cette'',
      asc ''ces'', asc ''est'', [233] @ asc ''t'' @ [233], asc ''sont'', asc ''fut'',
      asc ''ont'']"

text \<open>The tail \<open>(?:\s*av\.?\s*J\.?-?C\.?)?\<close> shared by the prefix patterns.\<close>

definition avJCopt :: rx where
  "avJCopt = Opt (seqs [Star isSpace, lit (asc ''av''), OptC (\<lambda>c. c = 46), Star isSpace, Ch 74,
                        OptC (\<lambda>c. c = 46), OptC (\<lambda>c. c = 45), Ch 67, OptC (\<lambda>c. c = 46)])"

text \<open>\<open>/\(\d{1,4}(?:\s*av\.?\s*J\.?-?C\.?)?\)\s*/\<close>, anchored by \<open>^\<close> in \<open>cleanTitle\<close>.\<close>

definition yearPrefixBody :: rx where
  "yearPrefixBody = seqs [Ch 40, Rep 1 (Some 4) isDigit, avJCopt, Ch 41, Star isSpace]"

definition yearPrefixRe :: rx where
  "yearPrefixRe = Seq Bol yearPrefixBody"

text \<open>\<open>/^\([IVXLCDM]+e(?:\s*av\.?\s*J\.?-?C\.?)?\)\s*/\<close>\<close>

definition centuryPrefixRe :: rx where
  "centuryPrefixRe =
     seqs [Bol, Ch 40, Plus (\<lambda>c. c \<in> set (asc ''IVXLCDM'')), Ch 101, avJCopt, Ch 41, Star isSpace]"

definition trim :: "jstring \<Rightarrow> jstring" where
  "trim s = rev (dropWhile isSpace (rev (dropWhile isSpace s)))"

definition cleanTitle :: "jstring \<Rightarrow> jstring" where
  "cleanTitle t = trim (rxReplaceFirst centuryPrefixRe [] (rxReplaceFirst yearPrefixRe [] t))"

text \<open>The separator \<open>/[\s''`\-\<dots>/,.:;]+/\<close> of words: white space, apostrophe, back
  quote, hyphen, en dash (\<open>8211\<close>), em dash (\<open>8212\<close>), slash, comma, full stop, colon
  and semicolon.\<close>

definition isWordSep :: "nat \<Rightarrow> bool" where
  "isWordSep c = (isSpace c \<or> c \<in> set [39, 96, 45, 8211, 8212, 47, 44, 46, 58, 59])"

text \<open>\<open>[a-zA-Z\`A-\"y]\<close>: the ASCII letters and the code units \<open>192\<close> to \<open>255\<close>.\<close>

definition isLetter :: "nat \<Rightarrow> bool" where
  "isLetter c = ((97 \<le> c \<and> c \<le> 122) \<or> (65 \<le> c \<and> c \<le> 90) \<or> (192 \<le> c \<and> c \<le> 255))"

definition extractSignificantWords :: "(jstring \<Rightarrow> jstring) \<Rightarrow> jstring \<Rightarrow> jstring list" where
  "extractSignificantWords lc t =
     filter (\<lambda>w. length w \<ge> 4 \<and> lc w \<notin> set STOP_WORDS)
       (map (filter isLetter)
          (rxSplit (Plus isWordSep) (rxReplaceAll yearPrefixBody [] t)))"

text \<open>The two mask tokens: six and four full blocks.\<close>

definition fullMask :: jstring where
  "fullMask = [9608, 9608, 9608, 9608, 9608, 9608]"

definition wordMask :: jstring where
  "wordMask = [9608, 9608, 9608, 9608]"

text \<open>
  \<open>new RegExp(escapeRegex(t), "gi")\<close>: \<open>escapeRegex\<close> puts a backslash before every
  character that is special in a pattern, so the expression matches the text \<open>t\<close>
  literally, one code unit after the other. Under the \<open>i\<close> flag a pattern unit and an
  input unit match when the built-in canonicalisation (the upper case of a single code
  unit) maps them to the same unit; it is the parameter \<open>canon\<close>.
\<close>

definition litCanon :: "(nat \<Rightarrow> nat) \<Rightarrow> jstring \<Rightarrow> rx" where
  "litCanon canon t = seqs (map (\<lambda>k. Cls (\<lambda>c. canon c = canon k)) t)"

text \<open>\<open>new RegExp(`\\b${escapeRegex(word)}\\b`, "gi")\<close>\<close>

definition wordRe :: "(nat \<Rightarrow> nat) \<Rightarrow> jstring \<Rightarrow> rx" where
  "wordRe canon w = Seq WordB (Seq (litCanon canon w) WordB)"

definition maskDescription :: "(jstring \<Rightarrow> jstring) \<Rightarrow> (nat \<Rightarrow> nat) \<Rightarrow> jstring \<Rightarrow> jstring \<Rightarrow> jstring" where
  "maskDescription lc canon description rawTitle =
     (let clean = trim (rxReplaceFirst centuryPrefixRe [] (rxReplaceFirst yearPrefixRe [] rawTitle));
          masked = (if length clean > 0
                    then rxReplaceAll (litCanon canon clean) fullMask description
                    else description);
          ws = extractSignificantWords lc clean
      in fold (\<lambda>w m. rxReplaceAll (wordRe canon w) wordMask m) ws masked)"

text \<open>
  \<open>extractActionVerbs\<close>: the radicals in the order of the keys of \<open>VERB_MAP\<close>, the
  loop left as soon as \<open>maxCount\<close> verbs are found.
\<close>

fun verbLoop :: "jstring \<Rightarrow> nat \<Rightarrow> jstring list \<Rightarrow> jstring list \<Rightarrow> jstring list" where
  "verbLoop lower maxCount [] found = found"
| "verbLoop lower maxCount (radical # rs) found =
     (case map_of VERB_MAP radical of
        None \<Rightarrow> verbLoop lower maxCount rs found
      | Some verb \<Rightarrow>
          if str_includes lower radical \<and> verb \<notin> set found then
            (let found' = found @ [verb]
             in if length found' \<ge> maxCount then found' else verbLoop lower maxCount rs found')
          else verbLoop lower maxCount rs found)"

definition extractActionVerbs :: "(jstring \<Rightarrow> jstring) \<Rightarrow> jstring \<Rightarrow> nat \<Rightarrow> jstring list" where
  "extractActionVerbs lc description maxCount = verbLoop (lc description) maxCount VERB_RADICALS []"

text \<open>
  \<open>shuffle\<close> (Fisher and Yates). \<open>Math.floor(Math.random() * (i + 1))\<close> is some index
  from \<open>0\<close> to \<open>i\<close>; the draws are the parameter \<open>pick\<close>, the draw of the iteration with
  index \<open>i\<close> being \<open>pick i\<close> reduced modulo \<open>i + 1\<close>.
\<close>

definition swap :: "nat \<Rightarrow> nat \<Rightarrow> 'a list \<Rightarrow> 'a list" where
  "swap i j xs = xs[i := xs ! j, j := xs ! i]"

fun shuffleLoop :: "(nat \<Rightarrow> nat) \<Rightarrow> nat \<Rightarrow> 'a list \<Rightarrow> 'a list" where
  "shuffleLoop pick 0 xs = xs"
| "shuffleLoop pick (Suc i) xs = shuffleLoop pick i (swap (Suc i) (pick (Suc i) mod (Suc i + 1)) xs)"

definition shuffle :: "(nat \<Rightarrow> nat) \<Rightarrow> 'a list \<Rightarrow> 'a list" where
  "shuffle pick arr = shuffleLoop pick (length arr - 1) arr"

definition genericFallbacks :: "jstring list" where
  "genericFallbacks =
     [asc ''Si'' @ [232] @ asc ''ge de Constantinople'',
      asc ''R'' @ [233] @ asc ''volte des Canuts'',
      asc ''Trait'' @ [233] @ asc '' de Westphalie'', asc ''Bataille de Verdun'',
      asc ''Massacre de Wounded Knee'',
      asc ''Chute de l'' @ [39] @ asc ''Empire romain'', asc ''Croisade des Albigeois'',
      asc ''D'' @ [233] @ asc ''claration de Balfour'']"

text \<open>The loop over the shuffled pool, left as soon as \<open>count\<close> decoys are chosen
  (the parameter \<open>count\<close> of the source is written \<open>count'\<close>).\<close>

fun takeDecoys :: "(jstring \<Rightarrow> jstring) \<Rightarrow> nat \<Rightarrow> WikiEvent list \<Rightarrow> jstring list \<times> jstring set
                   \<Rightarrow> jstring list \<times> jstring set" where
  "takeDecoys lc count' [] acc = acc"
| "takeDecoys lc count' (e # es) (decoys, used) =
     (let clean = lc (cleanTitle (ev_title e))
      in if clean \<notin> used then
           (let decoys' = decoys @ [cleanTitle (ev_title e)];
                used' = insert clean used
            in if length decoys' \<ge> count' then (decoys', used')
               else takeDecoys lc count' es (decoys', used'))
         else takeDecoys lc count' es (decoys, used))"

text \<open>
  \<open>while (decoys.length < count && fi < genericFallbacks.length)\<close>: the list argument
  holds the fallbacks from index \<open>fi\<close> on.
\<close>

fun padFallbacks :: "(jstring \<Rightarrow> jstring) \<Rightarrow> nat \<Rightarrow> jstring list \<Rightarrow> jstring list \<times> jstring set
                     \<Rightarrow> jstring list" where
  "padFallbacks lc count' [] (decoys, used) = decoys"
| "padFallbacks lc count' (f # fs) (decoys, used) =
     (if length decoys < count' then
        (if lc f \<notin> used
         then padFallbacks lc count' fs (decoys @ [f], insert (lc f) used)
         else padFallbacks lc count' fs (decoys, used))
      else decoys)"

definition generateDecoys :: "(jstring \<Rightarrow> jstring) \<Rightarrow> (nat \<Rightarrow> nat) \<Rightarrow> (nat \<Rightarrow> nat)
                              \<Rightarrow> WikiEvent \<Rightarrow> WikiEvent list \<Rightarrow> nat \<Rightarrow> jstring list" where
  "generateDecoys lc pickSame pickOther correctEvent pool count' =
     (let correctClean = lc (trim (rxReplaceFirst centuryPrefixRe []
                                     (rxReplaceFirst yearPrefixRe [] (ev_title correctEvent))));
          sameCategory = filter (\<lambda>e. ev_id e \<noteq> ev_id correctEvent
                                     \<and> ev_category e = ev_category correctEvent
                                     \<and> lc (cleanTitle (ev_title e)) \<noteq> correctClean) pool;
          otherCategory = filter (\<lambda>e. ev_id e \<noteq> ev_id correctEvent
                                      \<and> ev_category e \<noteq> ev_category correctEvent
                                      \<and> lc (cleanTitle (ev_title e)) \<noteq> correctClean) pool;
          shuffled = shuffle pickSame sameCategory @ shuffle pickOther otherCategory;
          chosen = takeDecoys lc count' shuffled ([], {correctClean});
          decoys = padFallbacks lc count' genericFallbacks chosen
      in take count' decoys)"

definition prepareQuizQuestion ::
  "(jstring \<Rightarrow> jstring) \<Rightarrow> (nat \<Rightarrow> nat) \<Rightarrow> (nat \<Rightarrow> nat) \<Rightarrow> (nat \<Rightarrow> nat) \<Rightarrow> (nat \<Rightarrow> nat)
   \<Rightarrow> WikiEvent \<Rightarrow> WikiEvent list \<Rightarrow> Difficulty \<Rightarrow> QuizQuestion" where
  "prepareQuizQuestion lc canon pickSame pickOther pickOptions event pool difficulty =
     (let correctTitle = cleanTitle (ev_title event);
          maskedDescription = maskDescription lc canon (ev_description event) (ev_title event);
          actions = extractActionVerbs lc (ev_description event) 3;
          decoys = generateDecoys lc pickSame pickOther event pool 3;
          opts = shuffle pickOptions (correctTitle # decoys)
      in \<lparr>q_eventId = showNat (ev_id event), q_correctTitle = correctTitle,
          q_maskedDescription = maskedDescription,
          q_hints = \<lparr>h_category = ev_category event, h_year = ev_year event,
                     h_actions = actions\<rparr>,
          q_options = opts, q_difficulty = difficulty\<rparr>)"

section \<open>Scoring calculator (game engine)\<close>

text \<open>
  The record returned by \<open>calculatePoints\<close>. JavaScript numbers that only ever hold
  integers in the source (points, hint counts) are modelled as \<open>int\<close>.
\<close>

record QuizResult =
  points :: int
  hintsUsed :: int
  wasQCM :: bool
  correct :: bool

text \<open>
  \<open>Math.round(points * 0.5)\<close> for an integer \<open>points\<close>: the product is exact, and
  \<open>Math.round\<close> takes the nearest integer with ties going towards plus infinity, so
  \<open>2.5\<close> becomes \<open>3\<close> and \<open>-2.5\<close> becomes \<open>-2\<close>.
\<close>

definition roundHalf :: "int \<Rightarrow> int" where
  "roundHalf p = (p + 1) div 2"

definition calculatePoints :: "bool \<Rightarrow> int \<Rightarrow> bool \<Rightarrow> QuizResult" where
  "calculatePoints isCorrect hints qcm =
     (if \<not> isCorrect then
        \<lparr>points = 0, hintsUsed = hints, wasQCM = qcm, correct = False\<rparr>
      else
        let p0 = 100;
            p1 = p0 - hints * 30;
            p2 = (if qcm then roundHalf p1 else p1);
            p3 = max 10 p2
        in \<lparr>points = p3, hintsUsed = hints, wasQCM = qcm, correct = True\<rparr>)"

section \<open>Literal search, for reasoning about the masking\<close>

text \<open>
  The patterns that \<open>maskDescription\<close> builds are literal texts, searched without regard
  to case and, for the words, between two word boundaries. The notions below describe
  such a search directly; they are related to the regular-expression engine by lemmas
  and serve only in proofs.
\<close>

definition bnd :: "nat option \<Rightarrow> nat option \<Rightarrow> bool" where
  "bnd a b = (isWordOpt a \<noteq> isWordOpt b)"

text \<open>The unit before position \<open>j\<close> of \<open>s\<close>, where \<open>b\<close> is the unit before \<open>s\<close>.\<close>

definition prevAt :: "nat option \<Rightarrow> jstring \<Rightarrow> nat \<Rightarrow> nat option" where
  "prevAt b s j = (if j = 0 then b else Some (s ! (j - 1)))"

fun ciPrefix :: "(nat \<Rightarrow> nat) \<Rightarrow> jstring \<Rightarrow> jstring \<Rightarrow> bool" where
  "ciPrefix canon [] s = True"
| "ciPrefix canon (k # ks) [] = False"
| "ciPrefix canon (k # ks) (c # s) = (canon c = canon k \<and> ciPrefix canon ks s)"

text \<open>
  \<open>occAt canon wb p b s\<close>: the text \<open>p\<close> occurs at the head of \<open>s\<close>, and, when \<open>wb\<close>
  holds, there is a word boundary before and after the occurrence.
\<close>

definition occAt :: "(nat \<Rightarrow> nat) \<Rightarrow> bool \<Rightarrow> jstring \<Rightarrow> nat option \<Rightarrow> jstring \<Rightarrow> bool" where
  "occAt canon wb p b s =
     (ciPrefix canon p s
      \<and> (wb \<longrightarrow> bnd b (nextUnit s) \<and> bnd (prevAt b s (length p)) (nextUnit (drop (length p) s))))"

fun noOcc :: "(nat \<Rightarrow> nat) \<Rightarrow> bool \<Rightarrow> jstring \<Rightarrow> nat option \<Rightarrow> jstring \<Rightarrow> bool" where
  "noOcc canon wb p b [] = True"
| "noOcc canon wb p b (x # s) = (\<not> occAt canon wb p b (x # s) \<and> noOcc canon wb p (Some x) s)"

text \<open>Replacing the successive leftmost occurrences of a non-empty text by a token.\<close>

function replLit :: "(nat \<Rightarrow> nat) \<Rightarrow> bool \<Rightarrow> jstring \<Rightarrow> jstring \<Rightarrow> nat option \<Rightarrow> jstring \<Rightarrow> jstring" where
  "replLit canon wb p tok b [] = []"
| "replLit canon wb p tok b (x # s) =
     (if p \<noteq> [] \<and> occAt canon wb p b (x # s)
      then tok @ replLit canon wb p tok (prevAt b (x # s) (length p)) (drop (length p) (x # s))
      else x # replLit canon wb p tok (Some x) s)"
  by pat_completeness auto
termination
  by (relation "measure (\<lambda>(canon, wb, p, tok, b, s). length s)") auto

text \<open>
  The unit before the output and the unit before the input, during a replacement: they
  are the same, or the output has just received a token in place of an occurrence, whose
  right boundary is then known.
\<close>

definition inStep :: "bool \<Rightarrow> nat option \<Rightarrow> nat option \<Rightarrow> jstring \<Rightarrow> bool" where
  "inStep wb bin bout s = (bout = bin \<or> (bout = Some 9608 \<and> (wb \<longrightarrow> bnd bin (nextUnit s))))"

section \<open>Concrete inputs\<close>

text \<open>Inputs used to evaluate the scorer.\<close>

definition rafle_title :: jstring where
  "rafle_title = asc ''Rafle du Vel d'' @ [39] @ asc ''Hiv''"

definition rafle_extract :: jstring where
  "rafle_extract = asc ''En 1942, les nazis ont d'' @ [233] @ asc ''port'' @ [233]
     @ asc '' des milliers de prisonniers vers un camp de concentration.''"

text \<open>
  A run of the orchestrator: every geosearch answers with the same three candidates, the
  keyword searches answer nothing, and no language count is known. Two candidates are
  memorial sites, the third is an obscure stadium.
\<close>

definition demoCandidates :: "GeoSearchResult list" where
  "demoCandidates =
     [\<lparr>geo_pageid = 1, geo_title = asc ''Kolyma'', geo_lat = 62, geo_lon = 150, geo_dist = 10\<rparr>,
      \<lparr>geo_pageid = 2, geo_title = asc ''Drancy'', geo_lat = 49, geo_lon = 2, geo_dist = 20\<rparr>,
      \<lparr>geo_pageid = 3, geo_title = asc ''Stade'', geo_lat = 49, geo_lon = 2, geo_dist = 30\<rparr>]"

definition demoExtracts :: "nat \<rightharpoonup> PageExtract" where
  "demoExtracts =
     [1 \<mapsto> \<lparr>pe_pageid = 1, pe_title = asc ''Kolyma'', pe_extract = Some (asc ''Un goulag.'')\<rparr>,
      2 \<mapsto> \<lparr>pe_pageid = 2, pe_title = asc ''Drancy'',
             pe_extract = Some (asc ''Un camp de la mort. Des morts.'')\<rparr>,
      3 \<mapsto> \<lparr>pe_pageid = 3, pe_title = asc ''Stade'', pe_extract = Some (asc ''Un stade.'')\<rparr>]"

definition demoEnv :: env where
  "demoEnv = \<lparr>toLower = toLowerCaseL1, gridKey = (\<lambda>la lo. asc ''cell''),
              notorietyRound = (\<lambda>b l. b),
              api_geosearch = (\<lambda>la lo r n. demoCandidates),
              api_keywordSearch = (\<lambda>kw la lo. []),
              api_fetchExtracts = (\<lambda>ids. demoExtracts),
              api_fetchLangCounts = (\<lambda>ids. Map.empty)\<rparr>"

definition demoCaches :: caches where
  "demoCaches = \<lparr>articleCache = Map.empty, gridCache = {}\<rparr>"

text \<open>An event for the quiz: its clean title is also one of the generic fallback titles.\<close>

definition verdun :: WikiEvent where
  "verdun = \<lparr>ev_id = 7, ev_title = asc ''(1916) Bataille de Verdun'',
             ev_description = asc ''La bataille de Verdun oppose deux arm'' @ [233] @ asc ''es.'',
             ev_lat = 49, ev_lng = 5, ev_year = Some 1916, ev_category = Shock, ev_score = 565,
             ev_notorietyScore = 90, ev_isIncontournable = False\<rparr>"

section \<open>Facts about strings and the occurrence count\<close>

lemma startsWith_iff: "startsWith k s \<longleftrightarrow> (\<exists>q. s = k @ q)"
  by (induction k s rule: startsWith.induct) auto

lemma str_includes_iff: "str_includes s k \<longleftrightarrow> (\<exists>p q. s = p @ k @ q)"
proof (induction s)
  case Nil
  then show ?case by auto
next
  case (Cons c s)
  show ?case
  proof
    assume "str_includes (c # s) k"
    then consider "startsWith k (c # s)" | "str_includes s k" by auto
    then show "\<exists>p q. c # s = p @ k @ q"
    proof cases
      case 1
      then obtain q where "c # s = k @ q" by (auto simp: startsWith_iff)
      then have "c # s = [] @ k @ q" by simp
      then show ?thesis by blast
    next
      case 2
      then obtain p q where "s = p @ k @ q" using Cons.IH by blast
      then have "c # s = (c # p) @ k @ q" by simp
      then show ?thesis by blast
    qed
  next
    assume "\<exists>p q. c # s = p @ k @ q"
    then obtain p q where pq: "c # s = p @ k @ q" by blast
    show "str_includes (c # s) k"
    proof (cases p)
      case Nil
      then have "startsWith k (c # s)" using pq by (simp add: startsWith_iff)
      then show ?thesis by simp
    next
      case (Cons a p')
      then have "s = p' @ k @ q" using pq by simp
      then show ?thesis using Cons.IH by auto
    qed
  qed
qed

lemma find_SomeD: "find P xs = Some x \<Longrightarrow> x \<in> set xs \<and> P x"
  by (induction xs) (auto split: if_splits)

lemma indexOf_Some:
  assumes "indexOf s w idx = Some i" and "w \<noteq> []"
  shows "idx \<le> i \<and> i < length s"
proof -
  from assms(1) have mem: "i \<in> set [min idx (length s) ..< Suc (length s)]"
    and sw: "startsWith w (drop i s)"
    unfolding indexOf_def by (auto dest: find_SomeD)
  from sw assms(2) have "drop i s \<noteq> []"
    by (cases w) (auto simp: startsWith_iff)
  then have "i < length s" by simp
  moreover from mem have "min idx (length s) \<le> i" by auto
  ultimately show ?thesis by simp
qed

text \<open>The loop of \<open>countOccurrences\<close> returns for every non-empty word.\<close>

lemma occLoop_total:
  assumes "w \<noteq> []"
  shows "\<exists>m. occLoop s w idx n = Some m"
proof (induction "Suc (length s) - idx" arbitrary: idx n rule: less_induct)
  case less
  show ?case
  proof (cases "indexOf s w idx")
    case None
    then show ?thesis by (subst occLoop.simps) simp
  next
    case (Some i)
    with assms have b: "idx \<le> i" "i < length s" using indexOf_Some by blast+
    from assms have "0 < length w" by simp
    with b have "Suc (length s) - (i + length w) < Suc (length s) - idx" by arith
    from less [OF this] obtain m where "occLoop s w (i + length w) (n + 1) = Some m" by blast
    with Some show ?thesis by (subst occLoop.simps) simp
  qed
qed

lemma countWords_total:
  assumes "\<forall>w \<in> set ws. w \<noteq> []"
  shows "\<exists>m. countWords s ws n = Some m"
  using assms
proof (induction ws arbitrary: n)
  case Nil
  then show ?case by simp
next
  case (Cons w ws)
  then obtain n' where "occLoop s w 0 n = Some n'" using occLoop_total [of w s 0 n] by auto
  with Cons show ?case by simp
qed

lemma church_total: "\<exists>m. countOccurrences lc s CHURCH_WORDS = Some m"
  unfolding countOccurrences_def
  by (rule countWords_total) (simp add: CHURCH_WORDS_def asc_def)

lemma computeScore_returns: "\<exists>r. computeScore lc t x langs = Some r"
proof -
  obtain m where "countOccurrences lc (lc (t @ [32] @ x)) CHURCH_WORDS = Some m"
    using church_total by blast
  then show ?thesis by (simp add: computeScore_def Let_def)
qed

lemma distinct_IMPACT: "distinct IMPACT_KW"
  by (simp add: IMPACT_KW_def asc_def)

lemma hitsIn_card: "distinct kws \<Longrightarrow> hitsIn kws s = int (card {k \<in> set kws. str_includes s k})"
  unfolding hitsIn_def by (simp add: distinct_length_filter Int_def conj_commute)

lemma someIn_iff: "someIn kws s \<longleftrightarrow> (\<exists>k \<in> set kws. str_includes s k)"
  by (simp add: someIn_def list_ex_iff)

text \<open>
  The definitions that the simplifier unfolds to run the model on a concrete input.
\<close>

lemmas rx_eval = asc_def seqs_def Star_def Plus_def Opt_def OptC_def litI_def lit_def ChI_def
  Ch_def repRuns_def isDigit_def isSpace_def otherCase_def isWordOpt_def isWordChar_def
  nextUnit_def ciUnit_def rxGroup_def rxTest_def rxMatchAll_def rxReplaceAll_def
  rxReplaceFirst_def rxSplit_def rxScan.simps Let_def

lemmas year_eval = extractYear_def extractCenturyYear_def romanValue_def bcRe_def yearRe_def
  romanRx_def bcRomanRe_def romanRe_def numCenturyRe_def siecle_def parseInt_def upperAscii_def
  ROMAN_TO_NUM_def

lemmas kw_eval = SHOCK_KW_def SHOCK_VERBS_def MEMORIAL_KW_def CIVILIZATION_KW_def
  STRUGGLE_KW_def ORIGINS_KW_def IMPACT_KW_def ALL_VERBS_def GEO_PENALTIES_def CHURCH_WORDS_def
  SPORT_BLACKLIST_def SPORT_EXCEPTIONS_def

lemmas score_eval = computeScore_def baseScoring_def titleRoyal_def classify_def hasVerb_def
  countOccurrences_def indexOf_def someIn_def hitsIn_def roundDiv5_def toLowerCaseL1_def
  lowerUnitL1_def occLoop.simps

text \<open>The scorer past the memorial boost, and the score of a candidate that base scoring keeps.\<close>

lemma computeScore_not_memorial:
  assumes "\<not> someIn MEMORIAL_KW (lc (title @ [32] @ extract))"
    and "countOccurrences lc (lc (title @ [32] @ extract)) CHURCH_WORDS = Some m"
  shows "computeScore lc title extract langs =
     (let full = lc (title @ [32] @ extract);
          sport = (someIn SPORT_BLACKLIST full \<and> \<not> someIn SPORT_EXCEPTIONS full)
      in if 3 < m \<and> \<not> hasVerb lc full \<and> \<not> someIn (SHOCK_KW @ STRUGGLE_KW) full then
           Some \<lparr>score = 0, rejected = True, reason = AntiEglise m, cat = Civilization\<rparr>
         else if sport \<and> langs < 20 then
           Some \<lparr>score = - 100, rejected = True, reason = SportMineur langs, cat = Civilization\<rparr>
         else Some (baseScoring lc title extract langs full sport (hasVerb lc full)))"
  using assms by (simp add: computeScore_def Let_def)

lemma baseScoring_kept:
  assumes kept: "\<not> rejected (baseScoring lc title extract langs full sport act)"
  shows "score (baseScoring lc title extract langs full sport act) =
          (let total = 10 + snd (classify full)
                 + (if titleRoyal lc title then 500 else 0)
                 - (if sport then 50 else 0)
                 - (if someIn GEO_PENALTIES full then 10 else 0)
                 + hitsIn IMPACT_KW full * 15
                 + (if act then 10 else 0)
                 + (if length extract > 200 then 5 else 0)
                 + (if length extract > 500 then 5 else 0)
           in if fst (classify full) = Origins \<and> langs < 30 then roundDiv5 total else total)"
proof -
  obtain c cs where cl: "classify full = (c, cs)"
    by (cases "classify full")
  define geo where "geo = find (\<lambda>kw. str_includes full kw \<and> \<not> 0 < cs) GEO_PENALTIES"
  define nodate where "nodate \<longleftrightarrow> (extractYear extract = None \<or> extractYear extract = Some 0) \<and> \<not> 0 < cs"
  have geoN: "geo = None"
  proof (cases geo)
    case (Some kw)
    then have "rejected (baseScoring lc title extract langs full sport act)"
      unfolding geo_def by (simp add: baseScoring_def cl)
    with kept show ?thesis by simp
  qed simp
  have dated: "\<not> nodate"
  proof
    assume nodate
    then have "rejected (baseScoring lc title extract langs full sport act)"
      using geoN unfolding geo_def nodate_def by (simp add: baseScoring_def cl Let_def)
    with kept show False by simp
  qed
  have bump: "\<And>b (s::int) k. (if b then s + k else s) = s + (if b then k else 0)"
             "\<And>b (s::int) k. (if b then s - k else s) = s - (if b then k else 0)"
    by simp_all
  have "score (baseScoring lc title extract langs full sport act) =
          (if c = Origins \<and> langs < 30
           then roundDiv5 (10 + cs + (if titleRoyal lc title then 500 else 0)
                     - (if sport then 50 else 0)
                     - (if someIn GEO_PENALTIES full then 10 else 0)
                     + hitsIn IMPACT_KW full * 15
                     + (if act then 10 else 0)
                     + (if length extract > 200 then 5 else 0)
                     + (if length extract > 500 then 5 else 0))
           else 10 + cs + (if titleRoyal lc title then 500 else 0)
                     - (if sport then 50 else 0)
                     - (if someIn GEO_PENALTIES full then 10 else 0)
                     + hitsIn IMPACT_KW full * 15
                     + (if act then 10 else 0)
                     + (if length extract > 200 then 5 else 0)
                     + (if length extract > 500 then 5 else 0))"
    using geoN dated unfolding geo_def nodate_def baseScoring_def cl
    by (simp only: Let_def bump prod.case option.case if_False if_True
          ScoreResult.simps simp_thms split: if_split)
  then show ?thesis by (simp add: cl Let_def)
qed

lemmas fetch_eval = fetchWikiEvents_def scoreLoop.simps geosearch_def buildGrid_def
  trimExtract_def formatTitle_def formatCenturyLabel_def sentenceSep_def dateRe_def siecleRe_def
  allKW_def sliceFromFirst_def MAX_RESULTS_def SHADOW_LIMIT_def KEYWORD_SEARCHES_def
  demoEnv_def demoCaches_def demoCandidates_def demoExtracts_def showNat.simps

text \<open>Ranges of the values the temporal extractor can return.\<close>

lemma roman_value_range: "map_of ROMAN_TO_NUM k = Some n \<Longrightarrow> 1 \<le> n \<and> n \<le> 21"
  by (auto simp: ROMAN_TO_NUM_def split: if_splits)

lemma fold_min_ge:
  fixes y :: nat
  assumes "b \<le> y" and "\<forall>z \<in> set ys. b \<le> z"
  shows "b \<le> fold min ys y"
  using assms by (induction ys arbitrary: y) auto

lemma extractCenturyYear_range:
  assumes "extractCenturyYear text = Some y"
  shows "(y < 0 \<longrightarrow> romanValue bcRomanRe text \<noteq> None) \<and> y \<noteq> 0 \<and> (0 < y \<longrightarrow> 50 \<le> y)"
proof (cases "romanValue bcRomanRe text")
  case (Some n)
  then have "1 \<le> n" using roman_value_range [of _ n]
    by (auto simp: romanValue_def split: option.splits)
  with assms Some show ?thesis by (auto simp: extractCenturyYear_def)
next
  case None
  show ?thesis
  proof (cases "romanValue romanRe text")
    case (Some n)
    then have "1 \<le> n" using roman_value_range [of _ n]
      by (auto simp: romanValue_def split: option.splits)
    with assms None Some show ?thesis by (auto simp: extractCenturyYear_def)
  next
    case N2: None
    with assms None show ?thesis
      by (auto simp: extractCenturyYear_def Let_def split: option.splits if_splits)
  qed
qed

text \<open>
  A year returned by \<open>extractYear\<close> is negative, zero, or at least 50; it is negative
  only on a BCE path and zero only when the explicit BCE pattern captures a number equal
  to zero.
\<close>

lemma extractYear_range:
  assumes "extractYear text = Some y"
  shows "(y < 0 \<or> y = 0 \<or> 50 \<le> y)
       \<and> (y < 0 \<longrightarrow> rxGroup bcRe text \<noteq> None \<or> romanValue bcRomanRe text \<noteq> None)
       \<and> (y = 0 \<longrightarrow> (\<exists>g. rxGroup bcRe text = Some g \<and> parseInt g = 0))"
proof (cases "rxGroup bcRe text")
  case (Some g)
  with assms have "y = - int (parseInt g)" by (simp add: extractYear_def)
  with Some show ?thesis by auto
next
  case None
  define years where "years = (case rxMatchAll yearRe text of None \<Rightarrow> []
                       | Some ms \<Rightarrow> filter (\<lambda>y. 100 \<le> y \<and> y \<le> 2025) (map parseInt ms))"
  have ge: "\<forall>z \<in> set years. 100 \<le> z"
    by (auto simp: years_def split: option.splits)
  show ?thesis
  proof (cases years)
    case Nil
    with assms None have "extractCenturyYear text = Some y"
      by (simp add: extractYear_def years_def [symmetric])
    from extractCenturyYear_range [OF this] show ?thesis by auto
  next
    case (Cons z zs)
    with assms None have "y = int (fold min zs z)"
      by (simp add: extractYear_def years_def [symmetric])
    moreover have "100 \<le> fold min zs z"
      using ge Cons by (intro fold_min_ge) auto
    ultimately show ?thesis by auto
  qed
qed

section \<open>Facts about the orchestrator\<close>

lemma trimExtract_length: "length (trimExtract lc extract yr) \<le> 500"
  by (simp add: trimExtract_def Let_def split: list.splits option.splits)

declare scoreLoop.simps [simp del]

lemma scoreLoop_returns:
  "\<exists>cache' scored'. scoreLoop e extracts langCounts kw gs (cache, scored) = Some (cache', scored')
      \<and> ((\<forall>ev \<in> set scored. length (ev_description ev) \<le> 500)
           \<longrightarrow> (\<forall>ev \<in> set scored'. length (ev_description ev) \<le> 500))"
proof (induction gs arbitrary: cache scored)
  case Nil
  show ?case by (simp add: scoreLoop.simps)
next
  case (Cons g gs)
  define rawExtract where "rawExtract = (case extracts (geo_pageid g) of
                          None \<Rightarrow> []
                        | Some p \<Rightarrow> (case pe_extract p of None \<Rightarrow> [] | Some x \<Rightarrow> x))"
  define rawTitle where "rawTitle = (case extracts (geo_pageid g) of None \<Rightarrow> geo_title g | Some p \<Rightarrow> pe_title p)"
  define langs where "langs = (case langCounts (geo_pageid g) of None \<Rightarrow> 0 | Some n \<Rightarrow> n)"
  obtain r where r: "computeScore (toLower e) rawTitle rawExtract langs = Some r"
    using computeScore_returns by blast
  define event where "event = \<lparr>ev_id = geo_pageid g,
       ev_title = formatTitle rawTitle (extractYear rawExtract) rawExtract,
       ev_description = trimExtract (toLower e) rawExtract (extractYear rawExtract),
       ev_lat = geo_lat g, ev_lng = geo_lon g, ev_year = extractYear rawExtract,
       ev_category = cat r,
       ev_score = (if score r \<ge> 1000 then score r else notorietyRound e (score r) langs),
       ev_notorietyScore = langs, ev_isIncontournable = (geo_pageid g \<in> kw)\<rparr>"
  have step: "scoreLoop e extracts langCounts kw (g # gs) (cache, scored) =
      (if rejected r \<or> (cat r = Origins \<and> langs < 15 \<and> geo_pageid g \<notin> kw)
       then scoreLoop e extracts langCounts kw gs (cache(geo_pageid g \<mapsto> None), scored)
       else scoreLoop e extracts langCounts kw gs (cache(geo_pageid g \<mapsto> Some event), scored @ [event]))"
    using r unfolding rawExtract_def rawTitle_def langs_def event_def
    by (simp add: scoreLoop.simps Let_def)
  have ev: "length (ev_description event) \<le> 500"
    by (simp add: event_def trimExtract_length)
  show ?case
  proof (cases "rejected r \<or> (cat r = Origins \<and> langs < 15 \<and> geo_pageid g \<notin> kw)")
    case True
    with step have "scoreLoop e extracts langCounts kw (g # gs) (cache, scored) =
        scoreLoop e extracts langCounts kw gs (cache(geo_pageid g \<mapsto> None), scored)"
      by (simp only: if_True)
    then show ?thesis
      by (simp only: Cons.IH)
  next
    case False
    with step have eq: "scoreLoop e extracts langCounts kw (g # gs) (cache, scored) =
        scoreLoop e extracts langCounts kw gs (cache(geo_pageid g \<mapsto> Some event), scored @ [event])"
      by (simp only: if_False)
    from Cons.IH [of "cache(geo_pageid g \<mapsto> Some event)" "scored @ [event]"]
    obtain c' s' where
      run: "scoreLoop e extracts langCounts kw gs (cache(geo_pageid g \<mapsto> Some event), scored @ [event]) = Some (c', s')"
      and inv: "(\<forall>ev \<in> set (scored @ [event]). length (ev_description ev) \<le> 500)
           \<longrightarrow> (\<forall>ev \<in> set s'. length (ev_description ev) \<le> 500)"
      by blast
    have "(\<forall>ev \<in> set scored. length (ev_description ev) \<le> 500)
           \<longrightarrow> (\<forall>ev \<in> set s'. length (ev_description ev) \<le> 500)"
    proof
      assume "\<forall>ev \<in> set scored. length (ev_description ev) \<le> 500"
      with ev have "\<forall>ev \<in> set (scored @ [event]). length (ev_description ev) \<le> 500"
        by simp
      with inv show "\<forall>ev \<in> set s'. length (ev_description ev) \<le> 500" by blast
    qed
    with run show ?thesis unfolding eq by blast
  qed
qed

lemma scoreLoop_from_empty:
  "\<exists>cache' scored'. scoreLoop e extracts langCounts kw gs (cache, []) = Some (cache', scored')
      \<and> (\<forall>ev \<in> set scored'. length (ev_description ev) \<le> 500)"
  using scoreLoop_returns [of e extracts langCounts kw gs cache "[]"] by simp

lemma in_take_sort: "ev \<in> set (take n (sort_key f xs)) \<Longrightarrow> ev \<in> set xs"
  by (auto dest: in_set_takeD)

lemma fetchWikiEvents_cases:
  "fetchWikiEvents e st la lo radius = Some ([], st)
   \<or> (\<exists>g. fetchWikiEvents e st la lo radius = Some ([], st\<lparr>gridCache := g\<rparr>))
   \<or> (\<exists>scored c g. (\<forall>ev \<in> set scored. length (ev_description ev) \<le> 500)
        \<and> fetchWikiEvents e st la lo radius =
            Some (take MAX_RESULTS (sort_key (\<lambda>ev. - ev_score ev) scored),
                  \<lparr>articleCache = c, gridCache = g\<rparr>))"
proof -
  define newPoints where "newPoints = filter (\<lambda>(pla, plo). gridKey e pla plo \<notin> gridCache st) (buildGrid la lo)"
  define kws where "kws = map (\<lambda>kw. api_keywordSearch e kw la lo) KEYWORD_SEARCHES"
  define grid' where "grid' = gridCache st \<union> set (map (\<lambda>(pla, plo). gridKey e pla plo) newPoints)"
  define geoResults where "geoResults = mergeUnique (articleCache st) []
        (concat (map (\<lambda>(pla, plo). geosearch e pla plo (min radius 10000) SHADOW_LIMIT) newPoints @ kws))"
  obtain c' s' where loop: "scoreLoop e (api_fetchExtracts e (map geo_pageid geoResults))
      (api_fetchLangCounts e (map geo_pageid geoResults)) (set (map geo_pageid (concat kws)))
      geoResults (articleCache st, []) = Some (c', s')"
    and inv: "\<forall>ev \<in> set s'. length (ev_description ev) \<le> 500"
    using scoreLoop_from_empty by blast
  show ?thesis
  proof (cases "newPoints = []")
    case True
    then show ?thesis
      unfolding newPoints_def by (simp add: fetchWikiEvents_def Let_def)
  next
    case ne: False
    show ?thesis
    proof (cases "geoResults = []")
      case True
      with ne have "fetchWikiEvents e st la lo radius = Some ([], st\<lparr>gridCache := grid'\<rparr>)"
        unfolding newPoints_def geoResults_def kws_def grid'_def
        by (simp add: fetchWikiEvents_def Let_def)
      then show ?thesis by blast
    next
      case False
      with ne loop have "fetchWikiEvents e st la lo radius =
            Some (take MAX_RESULTS (sort_key (\<lambda>ev. - ev_score ev) s'),
                  \<lparr>articleCache = c', gridCache = grid'\<rparr>)"
        unfolding newPoints_def geoResults_def kws_def grid'_def
        by (simp add: fetchWikiEvents_def Let_def)
      with inv show ?thesis by blast
    qed
  qed
qed

lemma sorted_desc_take_sort:
  "sorted_wrt (\<lambda>a b. ev_score b \<le> ev_score a) (take n (sort_key (\<lambda>ev. - ev_score ev) xs))"
proof -
  have "sorted (map (\<lambda>ev. - ev_score ev) (sort_key (\<lambda>ev. - ev_score ev) xs))"
    by (rule sorted_sort_key)
  then have "sorted_wrt (\<lambda>a b. ev_score b \<le> ev_score a) (sort_key (\<lambda>ev. - ev_score ev) xs)"
    by (simp add: sorted_map)
  then show ?thesis by (rule sorted_wrt_take)
qed

lemma demo_run:
  "map_option (map (\<lambda>ev. (ev_id ev, ev_score ev, ev_description ev)) \<circ> fst)
     (fetchWikiEvents demoEnv demoCaches 48 2 10000)
   = Some [(2, 1150, asc ''Des morts.''), (1, 1000, asc ''Un goulag.'')]"
  by (simp add: rx_eval year_eval kw_eval score_eval fetch_eval)

section \<open>Facts about the quiz generator\<close>

lemmas quiz_eval = prepareQuizQuestion_def generateDecoys_def cleanTitle_def trim_def yearPrefixRe_def
  yearPrefixBody_def centuryPrefixRe_def avJCopt_def shuffle_def swap_def genericFallbacks_def
  toLowerCaseL1_def lowerUnitL1_def verdun_def

text \<open>The shuffle permutes its argument, whatever is drawn.\<close>

lemma mset_shuffleLoop:
  "i < length xs \<Longrightarrow> mset (shuffleLoop pick i xs) = mset xs"
proof (induction i arbitrary: xs)
  case 0
  show ?case by simp
next
  case (Suc i)
  let ?j = "pick (Suc i) mod (Suc i + 1)"
  have j: "?j < length xs" using Suc.prems by (simp add: less_le_trans [OF mod_less_divisor])
  have len: "i < length (swap (Suc i) ?j xs)" using Suc.prems by (simp add: swap_def)
  have "mset (swap (Suc i) ?j xs) = mset xs"
    unfolding swap_def using Suc.prems j by (simp add: mset_swap)
  with Suc.IH [OF len] show ?case by simp
qed

lemma mset_shuffle: "mset (shuffle pick xs) = mset xs"
proof (cases xs)
  case Nil
  then show ?thesis by (simp add: shuffle_def)
next
  case (Cons x xs')
  then show ?thesis by (simp add: shuffle_def mset_shuffleLoop)
qed

text \<open>
  The two loops that choose the decoys keep this invariant: the set \<open>used\<close> holds the
  lowercased correct title and the lowercased decoys, the decoys differ pairwise after
  lowercasing, and none is the correct title after lowercasing.
\<close>

lemma takeDecoys_inv:
  assumes "used = insert cc (lc ` set decoys)" and "distinct (map lc decoys)"
    and "cc \<notin> lc ` set decoys" and "length decoys < count'"
  shows "case takeDecoys lc count' es (decoys, used) of
           (d', u') \<Rightarrow> u' = insert cc (lc ` set d') \<and> distinct (map lc d')
                       \<and> cc \<notin> lc ` set d' \<and> length d' \<le> count'"
  using assms
proof (induction es arbitrary: decoys used)
  case Nil
  then show ?case by simp
next
  case (Cons e es)
  let ?t = "cleanTitle (ev_title e)"
  show ?case
  proof (cases "lc ?t \<in> used")
    case True
    then have "takeDecoys lc count' (e # es) (decoys, used) = takeDecoys lc count' es (decoys, used)"
      by (simp add: Let_def)
    with Cons.IH [OF Cons.prems] show ?thesis by simp
  next
    case False
    let ?d = "decoys @ [?t]"
    let ?u = "insert (lc ?t) used"
    have a: "?u = insert cc (lc ` set ?d)" using Cons.prems(1) by auto
    have b: "distinct (map lc ?d)" using Cons.prems(1,2) False by auto
    have c: "cc \<notin> lc ` set ?d" using Cons.prems(1,3) False by auto
    show ?thesis
    proof (cases "length ?d \<ge> count'")
      case True
      with False have "takeDecoys lc count' (e # es) (decoys, used) = (?d, ?u)"
        by (simp add: Let_def)
      moreover have "length ?d \<le> count'" using Cons.prems(4) by simp
      ultimately show ?thesis using a b c by simp
    next
      case F2: False
      with False have "takeDecoys lc count' (e # es) (decoys, used) = takeDecoys lc count' es (?d, ?u)"
        by (simp add: Let_def)
      moreover have "length ?d < count'" using F2 by simp
      ultimately show ?thesis using Cons.IH [OF a b c] by simp
    qed
  qed
qed

lemma padFallbacks_inv:
  assumes "used = insert cc (lc ` set decoys)" and "distinct (map lc decoys)"
    and "cc \<notin> lc ` set decoys"
  shows "distinct (map lc (padFallbacks lc count' fs (decoys, used)))
       \<and> cc \<notin> lc ` set (padFallbacks lc count' fs (decoys, used))"
  using assms
proof (induction fs arbitrary: decoys used)
  case Nil
  then show ?case by simp
next
  case (Cons f fs)
  show ?case
  proof (cases "length decoys < count' \<and> lc f \<notin> used")
    case True
    let ?d = "decoys @ [f]"
    let ?u = "insert (lc f) used"
    have a: "?u = insert cc (lc ` set ?d)" using Cons.prems(1) by auto
    have b: "distinct (map lc ?d)" using Cons.prems(1,2) True by auto
    have c: "cc \<notin> lc ` set ?d" using Cons.prems(1,3) True by auto
    from True have "padFallbacks lc count' (f # fs) (decoys, used) = padFallbacks lc count' fs (?d, ?u)"
      by simp
    with Cons.IH [OF a b c] show ?thesis by simp
  next
    case False
    then consider "\<not> length decoys < count'" | "length decoys < count'" "lc f \<in> used" by blast
    then show ?thesis
    proof cases
      case 1
      then have "padFallbacks lc count' (f # fs) (decoys, used) = decoys" by simp
      with Cons.prems show ?thesis by simp
    next
      case 2
      then have "padFallbacks lc count' (f # fs) (decoys, used) = padFallbacks lc count' fs (decoys, used)"
        by simp
      with Cons.IH [OF Cons.prems] show ?thesis by simp
    qed
  qed
qed

lemma padFallbacks_length:
  assumes "distinct (map lc fs)" and "length decoys \<le> count'"
  shows "length (padFallbacks lc count' fs (decoys, used))
         = min count' (length decoys + length (filter (\<lambda>f. lc f \<notin> used) fs))"
  using assms
proof (induction fs arbitrary: decoys used)
  case Nil
  then show ?case by simp
next
  case (Cons f fs)
  have dfs: "distinct (map lc fs)" and fresh: "lc f \<notin> lc ` set fs"
    using Cons.prems(1) by auto
  show ?case
  proof (cases "length decoys < count'")
    case False
    with Cons.prems(2) show ?thesis by simp
  next
    case lt: True
    show ?thesis
    proof (cases "lc f \<in> used")
      case True
      with lt Cons.IH [OF dfs Cons.prems(2)] show ?thesis by simp
    next
      case False
      have same: "filter (\<lambda>g. lc g \<notin> insert (lc f) used) fs = filter (\<lambda>g. lc g \<notin> used) fs"
      proof (rule filter_cong [OF refl])
        fix g assume "g \<in> set fs"
        then have "lc g \<in> lc ` set fs" by (rule imageI)
        with fresh have "lc g \<noteq> lc f" by metis
        then show "(lc g \<notin> insert (lc f) used) = (lc g \<notin> used)" by simp
      qed
      have "length (decoys @ [f]) \<le> count'" using lt by simp
      from Cons.IH [OF dfs this, of "insert (lc f) used"]
      have "length (padFallbacks lc count' fs (decoys @ [f], insert (lc f) used))
              = min count' (length (decoys @ [f]) + length (filter (\<lambda>g. lc g \<notin> used) fs))"
        unfolding same .
      with False lt show ?thesis by simp
    qed
  qed
qed

lemma used_bound:
  assumes "distinct (map lc fs)" and "finite used"
  shows "length fs \<le> length (filter (\<lambda>f. lc f \<notin> used) fs) + card used"
proof -
  have d: "distinct (map lc (filter (\<lambda>f. lc f \<in> used) fs))"
    using assms(1) by (rule distinct_map_filter)
  have "length (filter (\<lambda>f. lc f \<in> used) fs) = card (set (map lc (filter (\<lambda>f. lc f \<in> used) fs)))"
    using distinct_card [OF d] by simp
  also have "\<dots> \<le> card used"
    using assms(2) by (intro card_mono) auto
  finally have "length (filter (\<lambda>f. lc f \<in> used) fs) \<le> card used" .
  moreover have "length fs = length (filter (\<lambda>f. lc f \<in> used) fs)
                           + length (filter (\<lambda>f. \<not> lc f \<in> used) fs)"
    by (rule sum_length_filter_compl [symmetric])
  ultimately show ?thesis by simp
qed

lemma generateDecoys_three:
  assumes fb: "distinct (map lc genericFallbacks)"
  shows "length (generateDecoys lc p1 p2 ev pool 3) = 3
       \<and> distinct (generateDecoys lc p1 p2 ev pool 3)
       \<and> cleanTitle (ev_title ev) \<notin> set (generateDecoys lc p1 p2 ev pool 3)"
proof -
  let ?cc = "lc (cleanTitle (ev_title ev))"
  define shuffled where "shuffled =
     shuffle p1 (filter (\<lambda>e. ev_id e \<noteq> ev_id ev \<and> ev_category e = ev_category ev
                               \<and> lc (cleanTitle (ev_title e)) \<noteq> ?cc) pool)
     @ shuffle p2 (filter (\<lambda>e. ev_id e \<noteq> ev_id ev \<and> ev_category e \<noteq> ev_category ev
                               \<and> lc (cleanTitle (ev_title e)) \<noteq> ?cc) pool)"
  obtain d u where ch: "takeDecoys lc 3 shuffled ([], {?cc}) = (d, u)"
    by (cases "takeDecoys lc 3 shuffled ([], {?cc})")
  have inv: "u = insert ?cc (lc ` set d)" "distinct (map lc d)" "?cc \<notin> lc ` set d" "length d \<le> 3"
    using takeDecoys_inv [of "{?cc}" ?cc lc "[]" 3 shuffled] ch by auto
  let ?pad = "padFallbacks lc 3 genericFallbacks (d, u)"
  have gen: "generateDecoys lc p1 p2 ev pool 3 = take 3 ?pad"
    unfolding generateDecoys_def cleanTitle_def [symmetric] shuffled_def [symmetric] Let_def ch ..
  have pinv: "distinct (map lc ?pad)" "?cc \<notin> lc ` set ?pad"
    using padFallbacks_inv [OF inv(1,2,3)] by auto
  have "card u \<le> Suc (length d)"
  proof -
    have "card u \<le> Suc (card (lc ` set d))" unfolding inv(1) by (simp add: card_insert_if)
    also have "card (lc ` set d) \<le> length d"
      by (metis card_length length_map set_map)
    finally show ?thesis by simp
  qed
  moreover have "finite u" unfolding inv(1) by simp
  moreover have "length genericFallbacks = 8" by (simp add: genericFallbacks_def)
  ultimately have "8 \<le> length (filter (\<lambda>f. lc f \<notin> u) genericFallbacks) + Suc (length d)"
    using used_bound [OF fb, of u] by simp
  then have len: "length ?pad = 3"
    using padFallbacks_length [OF fb inv(4), of u] inv(4) by simp
  have "distinct (take 3 ?pad)"
    using pinv(1) by (simp add: distinct_map)
  moreover have "cleanTitle (ev_title ev) \<notin> set (take 3 ?pad)"
    using pinv(2) by (auto dest: in_set_takeD)
  ultimately show ?thesis unfolding gen using len by simp
qed

section \<open>Facts about the masking\<close>

declare replLit.simps [simp del]

lemma ciPrefix_length: "ciPrefix canon p s \<Longrightarrow> length p \<le> length s"
  by (induction canon p s rule: ciPrefix.induct) auto

lemma ciPrefix_nth:
  "ciPrefix canon p s \<Longrightarrow> i < length p \<Longrightarrow> canon (s ! i) = canon (p ! i)"
proof (induction canon p s arbitrary: i rule: ciPrefix.induct)
  case (1 canon s)
  then show ?case by simp
next
  case (2 canon k ks)
  then show ?case by simp
next
  case (3 canon k ks c s)
  show ?case
  proof (cases i)
    case 0
    with "3.prems" show ?thesis by simp
  next
    case (Suc j)
    with "3.prems" have "ciPrefix canon ks s" "j < length ks" by simp_all
    from "3.IH" [OF this] Suc show ?thesis by simp
  qed
qed

lemma ciPrefix_cong_take:
  "take (length p) s = take (length p) s' \<Longrightarrow> ciPrefix canon p s = ciPrefix canon p s'"
proof (induction canon p s arbitrary: s' rule: ciPrefix.induct)
  case (1 canon s)
  show ?case by simp
next
  case (2 canon k ks)
  then show ?case by (cases s') simp_all
next
  case (3 canon k ks c s)
  show ?case
  proof (cases s')
    case Nil
    with "3.prems" show ?thesis by simp
  next
    case (Cons c' t)
    with "3.prems" have "c = c'" "take (length ks) s = take (length ks) t" by simp_all
    with "3.IH" [of t] Cons show ?thesis by simp
  qed
qed

lemma ciPrefix_blockfree:
  assumes hc: "\<forall>k. canon k = canon 9608 \<longrightarrow> k = 9608"
    and clean: "9608 \<notin> set p" and m: "ciPrefix canon p s"
  shows "9608 \<notin> set (take (length p) s)"
proof
  assume "9608 \<in> set (take (length p) s)"
  then obtain i where i: "i < length (take (length p) s)" "take (length p) s ! i = 9608"
    by (auto simp: in_set_conv_nth)
  then have ip: "i < length p" and si: "s ! i = 9608" by simp_all
  with m have "canon (p ! i) = canon 9608" using ciPrefix_nth [of canon p s i] by simp
  with hc have "p ! i = 9608" by blast
  with ip have "9608 \<in> set p" using nth_mem [of i p] by simp
  with clean show False by simp
qed


lemma prevAt_Cons_Suc: "prevAt b (x # s) (Suc j) = prevAt (Some x) s j"
  by (cases j) (simp_all add: prevAt_def)

lemma tok_head:
  assumes "tok \<noteq> []" and "set tok \<subseteq> {9608}"
  shows "\<exists>t. tok = 9608 # t"
  using assms by (cases tok) auto

text \<open>
  Up to the first block, the result of a replacement is a copy of its argument; and the
  unit that follows a copied stretch is either the same in both, or the first block of a
  token put in place of an occurrence that starts there.
\<close>

lemma replLit_prefix:
  assumes tok: "tok \<noteq> []" "set tok \<subseteq> {9608}"
  shows "j \<le> length (replLit canon wb p tok b s)
         \<Longrightarrow> 9608 \<notin> set (take j (replLit canon wb p tok b s))
         \<Longrightarrow> j \<le> length s \<and> take j (replLit canon wb p tok b s) = take j s
             \<and> (nextUnit (drop j (replLit canon wb p tok b s)) = nextUnit (drop j s)
                \<or> (nextUnit (drop j (replLit canon wb p tok b s)) = Some 9608
                    \<and> occAt canon wb p (prevAt b s j) (drop j s)))"
proof (induction s arbitrary: j b)
  case Nil
  then show ?case by (simp add: replLit.simps)
next
  case (Cons x s)
  show ?case
  proof (cases "p \<noteq> [] \<and> occAt canon wb p b (x # s)")
    case True
    obtain t where t: "tok = 9608 # t" using tok_head [OF tok] by blast
    from True have out: "replLit canon wb p tok b (x # s)
        = 9608 # t @ replLit canon wb p tok (prevAt b (x # s) (length p)) (drop (length p) (x # s))"
      by (simp add: replLit.simps t)
    have j0: "j = 0"
    proof (rule ccontr)
      assume "j \<noteq> 0"
      then obtain j' where "j = Suc j'" by (cases j) auto
      with Cons.prems(2) out show False by simp
    qed
    with True out show ?thesis by (simp add: prevAt_def nextUnit_def)
  next
    case False
    then have out: "replLit canon wb p tok b (x # s) = x # replLit canon wb p tok (Some x) s"
      by (simp only: replLit.simps if_False)
    show ?thesis
    proof (cases j)
      case 0
      with out show ?thesis by (simp add: nextUnit_def)
    next
      case (Suc j')
      with Cons.prems out have a: "j' \<le> length (replLit canon wb p tok (Some x) s)"
        and b: "9608 \<notin> set (take j' (replLit canon wb p tok (Some x) s))"
        by simp_all
      from Cons.IH [OF a b] Suc out show ?thesis
        by (simp add: prevAt_Cons_Suc)
    qed
  qed
qed

lemma bnd_block: "bnd (Some 9608) y = isWordOpt y" "bnd y (Some 9608) = isWordOpt y"
  by (auto simp: bnd_def isWordOpt_def isWordChar_def isDigit_def)

lemma nextUnit_take_eq: "take n xs = take n ys \<Longrightarrow> 0 < n \<Longrightarrow> nextUnit xs = nextUnit ys"
  by (cases xs; cases ys; cases n) (simp_all add: nextUnit_def)

text \<open>An occurrence of a block-free text in the output stands at the same place in the input.\<close>

lemma occ_transfer:
  assumes hc: "\<forall>k. canon k = canon 9608 \<longrightarrow> k = 9608"
    and tok: "tok \<noteq> []" "set tok \<subseteq> {9608}"
    and q: "q \<noteq> []" "9608 \<notin> set q"
    and wbs: "wb' \<longrightarrow> wb"
    and rel: "inStep wb bin bout s"
    and occ: "occAt canon wb' q bout (replLit canon wb p tok bin s)"
  shows "occAt canon wb' q bin s"
proof -
  let ?out = "replLit canon wb p tok bin s"
  let ?n = "length q"
  from occ have cp: "ciPrefix canon q ?out" by (simp add: occAt_def)
  have len: "?n \<le> length ?out" using ciPrefix_length [OF cp] .
  have free: "9608 \<notin> set (take ?n ?out)" using ciPrefix_blockfree [OF hc q(2) cp] .
  from replLit_prefix [OF tok len free]
  have ls: "?n \<le> length s" and tk: "take ?n ?out = take ?n s"
    and nx: "nextUnit (drop ?n ?out) = nextUnit (drop ?n s)
             \<or> (nextUnit (drop ?n ?out) = Some 9608 \<and> occAt canon wb p (prevAt bin s ?n) (drop ?n s))"
    by blast+
  have cps: "ciPrefix canon q s" using cp ciPrefix_cong_take [OF tk] by simp
  have npos: "0 < ?n" using q(1) by simp
  have hd_eq: "nextUnit ?out = nextUnit s"
    using nextUnit_take_eq [OF tk npos] .
  have last_eq: "prevAt bout ?out ?n = prevAt bin s ?n"
  proof -
    have "take ?n ?out ! (?n - 1) = ?out ! (?n - 1)" "take ?n s ! (?n - 1) = s ! (?n - 1)"
      using npos by simp_all
    with tk have "?out ! (?n - 1) = s ! (?n - 1)" by simp
    with npos show ?thesis by (simp add: prevAt_def)
  qed
  show ?thesis
  proof (cases wb')
    case False
    with cps show ?thesis by (simp add: occAt_def)
  next
    case True
    with wbs have wb: wb by simp
    from occ True have lb: "bnd bout (nextUnit ?out)"
      and rb: "bnd (prevAt bout ?out ?n) (nextUnit (drop ?n ?out))"
      by (simp_all add: occAt_def)
    have lb': "bnd bin (nextUnit s)"
    proof -
      from rel consider "bout = bin" | "bout = Some 9608" "bnd bin (nextUnit s)"
        using wb by (auto simp: inStep_def)
      then show ?thesis
      proof cases
        case 1
        with lb hd_eq show ?thesis by simp
      next
        case 2
        then show ?thesis by simp
      qed
    qed
    have rb': "bnd (prevAt bin s ?n) (nextUnit (drop ?n s))"
    proof -
      from nx consider "nextUnit (drop ?n ?out) = nextUnit (drop ?n s)"
        | "occAt canon wb p (prevAt bin s ?n) (drop ?n s)" by blast
      then show ?thesis
      proof cases
        case 1
        with rb last_eq show ?thesis by simp
      next
        case 2
        with wb show ?thesis by (simp add: occAt_def)
      qed
    qed
    from cps lb' rb' show ?thesis by (simp add: occAt_def)
  qed
qed


lemma prevAt_drop: "n \<le> length s \<Longrightarrow> prevAt (prevAt b s n) (drop n s) j = prevAt b s (n + j)"
  by (cases j) (simp_all add: prevAt_def)

lemma occAt_block_head:
  assumes hc: "\<forall>k. canon k = canon 9608 \<longrightarrow> k = 9608"
    and q: "q \<noteq> []" "9608 \<notin> set q"
  shows "\<not> occAt canon wb' q b (9608 # u)"
proof -
  obtain k ks where "q = k # ks" using q(1) by (cases q) auto
  with q(2) hc show ?thesis by (auto simp: occAt_def)
qed

lemma noOcc_tok_append:
  assumes hc: "\<forall>k. canon k = canon 9608 \<longrightarrow> k = 9608"
    and q: "q \<noteq> []" "9608 \<notin> set q"
  shows "tok \<noteq> [] \<Longrightarrow> set tok \<subseteq> {9608} \<Longrightarrow> noOcc canon wb' q (Some 9608) u
         \<Longrightarrow> noOcc canon wb' q b (tok @ u)"
proof (induction tok arbitrary: b)
  case Nil
  then show ?case by simp
next
  case (Cons t ts)
  then have t: "t = 9608" by simp
  show ?case
  proof (cases ts)
    case Nil
    with Cons.prems(3) t occAt_block_head [OF hc q] show ?thesis by simp
  next
    case (Cons t' ts')
    with Cons.prems have "noOcc canon wb' q (Some 9608) (ts @ u)"
      by (intro Cons.IH) simp_all
    with t occAt_block_head [OF hc q] show ?thesis by simp
  qed
qed

text \<open>
  After a replacement, a block-free text \<open>q\<close> occurs nowhere in the result, provided
  every occurrence of \<open>q\<close> in the argument stands where the replaced text occurs. This
  covers the replaced text itself, and every text that did not occur before.
\<close>

lemma replLit_noOcc:
  assumes hc: "\<forall>k. canon k = canon 9608 \<longrightarrow> k = 9608"
    and tok: "tok \<noteq> []" "set tok \<subseteq> {9608}"
    and q: "q \<noteq> []" "9608 \<notin> set q"
    and wbs: "wb' \<longrightarrow> wb"
  shows "inStep wb bin bout s
     \<Longrightarrow> (\<forall>j \<le> length s. occAt canon wb' q (prevAt bin s j) (drop j s)
                        \<longrightarrow> p \<noteq> [] \<and> occAt canon wb p (prevAt bin s j) (drop j s))
     \<Longrightarrow> noOcc canon wb' q bout (replLit canon wb p tok bin s)"
  using hc tok q wbs
proof (induction canon wb p tok bin s arbitrary: bout rule: replLit.induct)
  case (1 canon wb p tok b)
  show ?case by (simp add: replLit.simps)
next
  case (2 canon wb p tok b x s)
  note rel = "2.prems"(1) and cov = "2.prems"(2) and hc = "2.prems"(3) and tok = "2.prems"(4,5)
    and q = "2.prems"(6,7) and wbs = "2.prems"(8)
  show ?case
  proof (cases "p \<noteq> [] \<and> occAt canon wb p b (x # s)")
    case True
    let ?n = "length p"
    let ?b' = "prevAt b (x # s) ?n"
    let ?s' = "drop ?n (x # s)"
    from True have "ciPrefix canon p (x # s)" by (simp add: occAt_def)
    then have n: "?n \<le> length (x # s)" by (rule ciPrefix_length)
    have rel': "inStep wb ?b' (Some 9608) ?s'"
      using True by (simp add: inStep_def occAt_def)
    have cov': "\<forall>j \<le> length ?s'. occAt canon wb' q (prevAt ?b' ?s' j) (drop j ?s')
                  \<longrightarrow> p \<noteq> [] \<and> occAt canon wb p (prevAt ?b' ?s' j) (drop j ?s')"
    proof (intro allI impI)
      fix j assume j: "j \<le> length ?s'" and o: "occAt canon wb' q (prevAt ?b' ?s' j) (drop j ?s')"
      from j n have "?n + j \<le> length (x # s)" by simp
      moreover from o have "occAt canon wb' q (prevAt b (x # s) (?n + j)) (drop (?n + j) (x # s))"
        by (simp add: prevAt_drop [OF n] add.commute)
      ultimately have "p \<noteq> [] \<and> occAt canon wb p (prevAt b (x # s) (?n + j)) (drop (?n + j) (x # s))"
        using cov by blast
      then show "p \<noteq> [] \<and> occAt canon wb p (prevAt ?b' ?s' j) (drop j ?s')"
        by (simp add: prevAt_drop [OF n] add.commute)
    qed
    have "noOcc canon wb' q (Some 9608) (replLit canon wb p tok ?b' ?s')"
      using "2.IH"(1) [OF True rel' cov' hc tok q wbs] .
    then have "noOcc canon wb' q bout (tok @ replLit canon wb p tok ?b' ?s')"
      using noOcc_tok_append [OF hc q tok] by blast
    with True show ?thesis by (simp add: replLit.simps)
  next
    case False
    then have out: "replLit canon wb p tok b (x # s) = x # replLit canon wb p tok (Some x) s"
      by (simp only: replLit.simps if_False)
    have no_here: "\<not> occAt canon wb' q bout (replLit canon wb p tok b (x # s))"
    proof
      assume "occAt canon wb' q bout (replLit canon wb p tok b (x # s))"
      from occ_transfer [OF hc tok q wbs rel this]
      have "occAt canon wb' q (prevAt b (x # s) 0) (drop 0 (x # s))" by (simp add: prevAt_def)
      with cov have "p \<noteq> [] \<and> occAt canon wb p (prevAt b (x # s) 0) (drop 0 (x # s))"
        by blast
      with False show False by (simp add: prevAt_def)
    qed
    have rel': "inStep wb (Some x) (Some x) s" by (simp add: inStep_def)
    have cov': "\<forall>j \<le> length s. occAt canon wb' q (prevAt (Some x) s j) (drop j s)
                  \<longrightarrow> p \<noteq> [] \<and> occAt canon wb p (prevAt (Some x) s j) (drop j s)"
    proof (intro allI impI)
      fix j assume j: "j \<le> length s" and o: "occAt canon wb' q (prevAt (Some x) s j) (drop j s)"
      from o have "occAt canon wb' q (prevAt b (x # s) (Suc j)) (drop (Suc j) (x # s))"
        by (simp add: prevAt_Cons_Suc)
      with j cov have "p \<noteq> [] \<and> occAt canon wb p (prevAt b (x # s) (Suc j)) (drop (Suc j) (x # s))"
        by (metis Suc_le_mono length_Cons)
      then show "p \<noteq> [] \<and> occAt canon wb p (prevAt (Some x) s j) (drop j s)"
        by (simp add: prevAt_Cons_Suc)
    qed
    have "noOcc canon wb' q (Some x) (replLit canon wb p tok (Some x) s)"
      using "2.IH"(2) [OF False rel' cov' hc tok q wbs] .
    with no_here show ?thesis unfolding out by simp
  qed
qed

lemma noOcc_at:
  "noOcc canon wb q b s \<Longrightarrow> q \<noteq> [] \<Longrightarrow> j \<le> length s \<Longrightarrow> \<not> occAt canon wb q (prevAt b s j) (drop j s)"
proof (induction s arbitrary: b j)
  case Nil
  then show ?case by (cases q) (simp_all add: occAt_def)
next
  case (Cons x s)
  show ?case
  proof (cases j)
    case 0
    with Cons.prems show ?thesis by (simp add: prevAt_def)
  next
    case (Suc j')
    with Cons.prems have "\<not> occAt canon wb q (prevAt (Some x) s j') (drop j' s)"
      by (intro Cons.IH) simp_all
    with Suc show ?thesis by (simp add: prevAt_Cons_Suc)
  qed
qed

lemma replLit_id: "noOcc canon wb p b s \<Longrightarrow> replLit canon wb p tok b s = s"
  by (induction s arbitrary: b) (simp_all add: replLit.simps)

text \<open>The two uses: the replaced text is gone, and an absent text stays absent.\<close>

lemma replLit_removes:
  assumes hc: "\<forall>k. canon k = canon 9608 \<longrightarrow> k = 9608"
    and tok: "tok \<noteq> []" "set tok \<subseteq> {9608}"
    and p: "p \<noteq> []" "9608 \<notin> set p"
  shows "noOcc canon wb p None (replLit canon wb p tok None s)"
  by (rule replLit_noOcc [OF hc tok p]) (simp_all add: inStep_def p)

lemma replLit_keeps_absent:
  assumes hc: "\<forall>k. canon k = canon 9608 \<longrightarrow> k = 9608"
    and tok: "tok \<noteq> []" "set tok \<subseteq> {9608}"
    and q: "q \<noteq> []" "9608 \<notin> set q"
    and absent: "noOcc canon wb' q None s"
  shows "noOcc canon wb' q None (replLit canon True p tok None s)"
proof (rule replLit_noOcc [OF hc tok q])
  show "wb' \<longrightarrow> True" by simp
  show "inStep True None None s" by (simp add: inStep_def)
  show "\<forall>j \<le> length s. occAt canon wb' q (prevAt None s j) (drop j s)
            \<longrightarrow> p \<noteq> [] \<and> occAt canon True p (prevAt None s j) (drop j s)"
    using noOcc_at [OF absent q(1)] by blast
qed


subsection \<open>The engine on a literal pattern\<close>

lemma rxm_litCanon:
  "rxm (litCanon canon p) (b, s, c)
     = (if ciPrefix canon p s then [(prevAt b s (length p), drop (length p) s, c)] else [])"
proof (induction p arbitrary: b s)
  case Nil
  show ?case by (simp add: litCanon_def seqs_def prevAt_def)
next
  case (Cons k ks)
  have unfold: "litCanon canon (k # ks) = Seq (Cls (\<lambda>c. canon c = canon k)) (litCanon canon ks)"
    by (simp add: litCanon_def seqs_def)
  show ?case
  proof (cases s)
    case Nil
    then show ?thesis by (simp add: unfold)
  next
    case (Cons x s')
    show ?thesis
      unfolding unfold Cons
      by (simp add: Cons.IH prevAt_Cons_Suc)
  qed
qed

lemma rxm_wordRe:
  "rxm (wordRe canon w) (b, s, c)
     = (if occAt canon True w b s then [(prevAt b s (length w), drop (length w) s, c)] else [])"
proof -
  let ?n = "length w"
  have inner: "rxm (Seq (litCanon canon w) WordB) (b, s, c)
      = (if ciPrefix canon w s \<and> bnd (prevAt b s ?n) (nextUnit (drop ?n s))
         then [(prevAt b s ?n, drop ?n s, c)] else [])"
    by (simp add: rxm_litCanon bnd_def)
  show ?thesis
  proof (cases "bnd b (nextUnit s)")
    case True
    then have "rxm (wordRe canon w) (b, s, c) = rxm (Seq (litCanon canon w) WordB) (b, s, c)"
      by (simp add: wordRe_def bnd_def del: rxm.simps(3)) (simp add: bnd_def)
    with True show ?thesis by (simp only: inner occAt_def) simp
  next
    case False
    then have "rxm (wordRe canon w) (b, s, c) = []"
      by (simp add: wordRe_def bnd_def)
    with False show ?thesis by (simp add: occAt_def)
  qed
qed

lemma rxm_title:
  "rxm (litCanon canon p) (b, s, c)
     = (if occAt canon False p b s then [(prevAt b s (length p), drop (length p) s, c)] else [])"
  by (simp add: rxm_litCanon occAt_def)

declare rxScan.simps [simp del]

lemma rxScan_literal:
  assumes r: "\<And>b s. rxm r (b, s, None)
                 = (if occAt canon wb p b s then [(prevAt b s (length p), drop (length p) s, None)] else [])"
    and p: "p \<noteq> []"
  shows "(case rxScan r gap b s of (segs, rest) \<Rightarrow> concat (map (\<lambda>(g, m). g @ tok) segs) @ rest)
         = gap @ replLit canon wb p tok b s"
proof (induction "length s" arbitrary: gap b s rule: less_induct)
  case less
  show ?case
  proof (cases s)
    case Nil
    have "\<not> occAt canon wb p b []" using p by (cases p) (simp_all add: occAt_def)
    with Nil show ?thesis by (simp add: rxScan.simps r replLit.simps)
  next
    case (Cons x s')
    show ?thesis
    proof (cases "occAt canon wb p b (x # s')")
      case True
      let ?b' = "prevAt b (x # s') (length p)"
      let ?s'' = "drop (length p) (x # s')"
      have short: "length ?s'' \<le> length s'" using p by (cases p) simp_all
      then have "length ?s'' < length s" using Cons by simp
      from less [OF this, of "[]" ?b']
      have ih: "(case rxScan r [] ?b' ?s'' of (segs, rest) \<Rightarrow> concat (map (\<lambda>(g, m). g @ tok) segs) @ rest)
                  = replLit canon wb p tok ?b' ?s''" by simp
      obtain segs rest where sc: "rxScan r [] ?b' ?s'' = (segs, rest)"
        by (cases "rxScan r [] ?b' ?s''")
      have "rxScan r gap b (x # s')
              = ((gap, take (length (x # s') - length ?s'') (x # s')) # segs, rest)"
        using True short sc by (simp add: rxScan.simps r)
      moreover have "replLit canon wb p tok b (x # s') = tok @ replLit canon wb p tok ?b' ?s''"
        using True p by (simp add: replLit.simps)
      ultimately show ?thesis using ih sc Cons by simp
    next
      case False
      have "length s' < length s" using Cons by simp
      from less [OF this, of "gap @ [x]" "Some x"]
      have ih: "(case rxScan r (gap @ [x]) (Some x) s' of
                   (segs, rest) \<Rightarrow> concat (map (\<lambda>(g, m). g @ tok) segs) @ rest)
                  = (gap @ [x]) @ replLit canon wb p tok (Some x) s'" .
      have "rxScan r gap b (x # s') = rxScan r (gap @ [x]) (Some x) s'"
        using False by (simp add: rxScan.simps r)
      moreover have "replLit canon wb p tok b (x # s') = x # replLit canon wb p tok (Some x) s'"
        using False by (simp add: replLit.simps)
      ultimately show ?thesis using ih Cons by simp
    qed
  qed
qed

lemma replaceAll_title:
  "p \<noteq> [] \<Longrightarrow> rxReplaceAll (litCanon canon p) tok s = replLit canon False p tok None s"
  using rxScan_literal [where r = "litCanon canon p" and canon = canon and wb = False and p = p
                          and gap = "[]" and b = None and s = s and tok = tok]
  by (simp add: rxReplaceAll_def rxm_title)

lemma replaceAll_word:
  "w \<noteq> [] \<Longrightarrow> rxReplaceAll (wordRe canon w) tok s = replLit canon True w tok None s"
  using rxScan_literal [where r = "wordRe canon w" and canon = canon and wb = True and p = w
                          and gap = "[]" and b = None and s = s and tok = tok]
  by (simp add: rxReplaceAll_def rxm_wordRe)

subsection \<open>Masking twice\<close>

lemma masks: "fullMask \<noteq> []" "set fullMask \<subseteq> {9608}" "wordMask \<noteq> []" "set wordMask \<subseteq> {9608}"
  by (simp_all add: fullMask_def wordMask_def)

lemma significant_words:
  assumes "w \<in> set (extractSignificantWords lc t)"
  shows "w \<noteq> [] \<and> 9608 \<notin> set w"
proof -
  from assms obtain u where w: "w = filter isLetter u" and len: "4 \<le> length w"
    by (auto simp: extractSignificantWords_def)
  have "\<not> isLetter 9608" by (simp add: isLetter_def)
  with w have "9608 \<notin> set w" by auto
  with len show ?thesis by auto
qed

text \<open>The word pass: every word it masks is gone at its end, and an absent text stays absent.\<close>

lemma word_pass_keeps:
  assumes hc: "\<forall>k. canon k = canon 9608 \<longrightarrow> k = 9608"
    and q: "q \<noteq> []" "9608 \<notin> set q"
  shows "\<forall>w \<in> set ws. w \<noteq> [] \<Longrightarrow> noOcc canon wb' q None m
         \<Longrightarrow> noOcc canon wb' q None (fold (\<lambda>w m. rxReplaceAll (wordRe canon w) wordMask m) ws m)"
proof (induction ws arbitrary: m)
  case Nil
  then show ?case by simp
next
  case (Cons v vs)
  have "noOcc canon wb' q None (rxReplaceAll (wordRe canon v) wordMask m)"
    using Cons.prems replLit_keeps_absent [OF hc masks(3,4) q] by (simp add: replaceAll_word)
  with Cons show ?case by simp
qed

lemma word_pass_removes:
  assumes hc: "\<forall>k. canon k = canon 9608 \<longrightarrow> k = 9608"
  shows "\<forall>w \<in> set ws. w \<noteq> [] \<and> 9608 \<notin> set w
         \<Longrightarrow> \<forall>w \<in> set ws. noOcc canon True w None
                              (fold (\<lambda>w m. rxReplaceAll (wordRe canon w) wordMask m) ws m)"
proof (induction ws arbitrary: m)
  case Nil
  show ?case by simp
next
  case (Cons v vs)
  let ?m' = "rxReplaceAll (wordRe canon v) wordMask m"
  from Cons.prems have v: "v \<noteq> []" "9608 \<notin> set v" and vs: "\<forall>w \<in> set vs. w \<noteq> [] \<and> 9608 \<notin> set w"
    by simp_all
  have "noOcc canon True v None ?m'"
    using replLit_removes [OF hc masks(3,4) v] by (simp add: replaceAll_word v)
  then have a: "noOcc canon True v None (fold (\<lambda>w m. rxReplaceAll (wordRe canon w) wordMask m) vs ?m')"
    using word_pass_keeps [OF hc v] vs by blast
  from Cons.IH [OF vs, of ?m'] a show ?case by simp
qed

lemma word_pass_id:
  "\<forall>w \<in> set ws. w \<noteq> [] \<and> noOcc canon True w None m
   \<Longrightarrow> fold (\<lambda>w m. rxReplaceAll (wordRe canon w) wordMask m) ws m = m"
proof (induction ws)
  case Nil
  show ?case by simp
next
  case (Cons v vs)
  then have "rxReplaceAll (wordRe canon v) wordMask m = m"
    by (simp add: replaceAll_word replLit_id)
  with Cons show ?case by simp
qed

lemmas mask_eval = maskDescription_def extractSignificantWords_def isWordSep_def isLetter_def
  STOP_WORDS_def litCanon_def wordRe_def canonL1_def fullMask_def wordMask_def rxScan.simps

lemma canonL1_block: "\<forall>k. canonL1 k = canonL1 9608 \<longrightarrow> k = 9608"
  by (auto simp: canonL1_def split: if_splits)

section \<open>Properties of the temporal extractor\<close>

text \<open>
  C10. \<open>extractYear\<close> does return zero: when the explicit BCE pattern captures a number
  equal to zero, as in \<open>0 av. J.-C.\<close> or in \<open>10 000 av. J.-C.\<close> (where the capture is
  \<open>000\<close>), the result is \<open>-0\<close>. The test \<open>!year\<close> of \<open>computeScore\<close> then takes
  the returned year for \<open>null\<close>: a candidate with no keyword is rejected with the
  message of a missing date, whereas the same candidate dated \<open>1 av. J.-C.\<close> is kept.
\<close>

theorem extractYear_zero_taken_for_null:
  "extractYear (asc ''0 av. J.-C.'') = Some 0
   \<and> extractYear (asc ''10 000 av. J.-C.'') = Some 0
   \<and> computeScore toLowerCaseL1 (asc ''X'') (asc ''0 av. J.-C.'') 0
       = Some \<lparr>score = 0, rejected = True, reason = PasDeDate, cat = Civilization\<rparr>
   \<and> computeScore toLowerCaseL1 (asc ''X'') (asc ''1 av. J.-C.'') 0
       = Some \<lparr>score = 10, rejected = False,
               reason = Retenu Civilization 0 0 False False, cat = Civilization\<rparr>"
proof -
  have "extractYear (asc ''0 av. J.-C.'') = Some 0"
    by (simp add: rx_eval year_eval kw_eval score_eval)
  moreover have "extractYear (asc ''10 000 av. J.-C.'') = Some 0"
    by (simp add: rx_eval year_eval kw_eval score_eval)
  moreover have "computeScore toLowerCaseL1 (asc ''X'') (asc ''0 av. J.-C.'') 0
       = Some \<lparr>score = 0, rejected = True, reason = PasDeDate, cat = Civilization\<rparr>"
    by (simp add: rx_eval year_eval kw_eval score_eval)
  moreover have "computeScore toLowerCaseL1 (asc ''X'') (asc ''1 av. J.-C.'') 0
       = Some \<lparr>score = 10, rejected = False,
               reason = Retenu Civilization 0 0 False False, cat = Civilization\<rparr>"
    by (simp add: rx_eval year_eval kw_eval score_eval)
  ultimately show ?thesis by simp
qed

text \<open>
  C4. The century path of \<open>extractYear\<close> negates the midpoint for a Roman numeral
  followed by a BCE marker, but has no such case for an Arabic ordinal: \<open>5e si\`ecle av.
  J.-C.\<close> yields 450 where \<open>Ve si\`ecle av. J.-C.\<close> yields -450.
\<close>

theorem extractYear_arabic_century_bce:
  "extractYear (asc ''5e si'' @ [232] @ asc ''cle av. J.-C.'') = Some 450
   \<and> extractYear (asc ''Ve si'' @ [232] @ asc ''cle av. J.-C.'') = Some (- 450)"
proof -
  have "extractYear (asc ''5e si'' @ [232] @ asc ''cle av. J.-C.'') = Some 450" by (simp add: rx_eval year_eval kw_eval score_eval)
  moreover have "extractYear (asc ''Ve si'' @ [232] @ asc ''cle av. J.-C.'') = Some (- 450)"
    by (simp add: rx_eval year_eval kw_eval score_eval)
  ultimately show ?thesis by simp
qed

section \<open>Properties of the scorer\<close>

text \<open>
  C1. Memorial boost. Whenever the lowercased text \<open>title + " " + extract\<close> contains a
  memorial-site keyword, \<open>computeScore\<close> returns the category shock, the score
  \<open>(100 + impactHits * 15) * 10\<close> where \<open>impactHits\<close> is the number of distinct impact
  keywords present in that text, and \<open>rejected = false\<close>; so the score is at least 1000.
  This holds for every language-edition count and whatever \<open>toLowerCase\<close> does.
\<close>

theorem computeScore_memorial_boost:
  assumes "k \<in> set MEMORIAL_KW"
    and "str_includes (lc (title @ [32] @ extract)) k"
  shows "\<exists>r. computeScore lc title extract langs = Some r
           \<and> cat r = Shock
           \<and> score r = (100 + int (card {w \<in> set IMPACT_KW.
                                          str_includes (lc (title @ [32] @ extract)) w}) * 15) * 10
           \<and> \<not> rejected r
           \<and> 1000 \<le> score r"
proof -
  let ?full = "lc (title @ [32] @ extract)"
  have mem: "someIn MEMORIAL_KW ?full"
    using assms by (auto simp: someIn_iff)
  have hits: "hitsIn IMPACT_KW ?full = int (card {w \<in> set IMPACT_KW. str_includes ?full w})"
    by (rule hitsIn_card [OF distinct_IMPACT])
  have "computeScore lc title extract langs =
          Some \<lparr>score = (100 + hitsIn IMPACT_KW ?full * 15) * 10, rejected = False,
                reason = BoostMemoriel (hitsIn IMPACT_KW ?full * 15), cat = Shock\<rparr>"
    using mem by (simp add: computeScore_def Let_def)
  then show ?thesis unfolding hits by simp
qed

text \<open>
  The scenario of the specification: the round-up of the Vel d'Hiv, whose extract names a
  concentration camp and one impact keyword (\<open>prisonniers\<close>), scores \<open>(100 + 15) * 10\<close>.
\<close>

theorem computeScore_memorial_boost_witness:
  "asc ''camp de concentration'' \<in> set MEMORIAL_KW
   \<and> str_includes (toLowerCaseL1 (rafle_title @ [32] @ rafle_extract)) (asc ''camp de concentration'')
   \<and> computeScore toLowerCaseL1 rafle_title rafle_extract 12
       = Some \<lparr>score = 1150, rejected = False, reason = BoostMemoriel 15, cat = Shock\<rparr>"
proof -
  have a: "asc ''camp de concentration'' \<in> set MEMORIAL_KW"
    by (simp add: MEMORIAL_KW_def)
  have b: "str_includes (toLowerCaseL1 (rafle_title @ [32] @ rafle_extract))
             (asc ''camp de concentration'')"
    by (simp add: rx_eval kw_eval score_eval rafle_title_def rafle_extract_def)
  have c: "computeScore toLowerCaseL1 rafle_title rafle_extract 12
             = Some \<lparr>score = 1150, rejected = False, reason = BoostMemoriel 15, cat = Shock\<rparr>"
    by (simp add: rx_eval kw_eval score_eval rafle_title_def rafle_extract_def)
  from computeScore_memorial_boost
         [of "asc ''camp de concentration''" toLowerCaseL1 rafle_title rafle_extract 12, OF a b]
       a b c
  show ?thesis by simp
qed

text \<open>
  C3, as the code has it. A candidate that passes the memorial test and is kept by base
  scoring has the score below: the title bonus of 500 is added exactly when a shock,
  civilization or struggle keyword occurs in the lowercased title. The origins keywords
  are not consulted for the bonus. (For a minor origins article the sum, bonus included,
  is then divided by five.)
\<close>

theorem computeScore_title_bonus:
  assumes ret: "computeScore lc title extract langs = Some r"
    and kept: "\<not> rejected r"
    and nomem: "\<not> someIn MEMORIAL_KW (lc (title @ [32] @ extract))"
  shows "score r =
          (let full = lc (title @ [32] @ extract);
               total = 10 + snd (classify full)
                 + (if \<exists>k \<in> set SHOCK_KW \<union> set CIVILIZATION_KW \<union> set STRUGGLE_KW.
                         str_includes (lc title) k then 500 else 0)
                 - (if someIn SPORT_BLACKLIST full \<and> \<not> someIn SPORT_EXCEPTIONS full then 50 else 0)
                 - (if someIn GEO_PENALTIES full then 10 else 0)
                 + hitsIn IMPACT_KW full * 15
                 + (if hasVerb lc full then 10 else 0)
                 + (if length extract > 200 then 5 else 0)
                 + (if length extract > 500 then 5 else 0)
           in if fst (classify full) = Origins \<and> langs < 30 then roundDiv5 total else total)"
proof -
  let ?full = "lc (title @ [32] @ extract)"
  let ?sport = "someIn SPORT_BLACKLIST ?full \<and> \<not> someIn SPORT_EXCEPTIONS ?full"
  obtain m where m: "countOccurrences lc ?full CHURCH_WORDS = Some m"
    using church_total by blast
  have r: "r = baseScoring lc title extract langs ?full ?sport (hasVerb lc ?full)"
    using ret kept unfolding computeScore_not_memorial [OF nomem m]
    by (auto simp: Let_def split: if_splits)
  have royal: "titleRoyal lc title \<longleftrightarrow>
      (\<exists>k \<in> set SHOCK_KW \<union> set CIVILIZATION_KW \<union> set STRUGGLE_KW. str_includes (lc title) k)"
    by (auto simp: titleRoyal_def Let_def someIn_iff)
  from kept have "\<not> rejected (baseScoring lc title extract langs ?full ?sport (hasVerb lc ?full))"
    unfolding r .
  from baseScoring_kept [OF this] show ?thesis
    unfolding r royal by (simp only: Let_def)
qed

text \<open>A title with a shock keyword: \<open>10 + 45 + 500 + 10\<close>.\<close>

theorem computeScore_title_bonus_witness:
  "computeScore toLowerCaseL1 (asc ''Massacre'') [] 50
     = Some \<lparr>score = 565, rejected = False, reason = Retenu Shock 45 0 True False, cat = Shock\<rparr>
   \<and> classify (toLowerCaseL1 (asc ''Massacre'' @ [32] @ [])) = (Shock, 45)"
proof -
  have a: "computeScore toLowerCaseL1 (asc ''Massacre'') [] 50
     = Some \<lparr>score = 565, rejected = False, reason = Retenu Shock 45 0 True False, cat = Shock\<rparr>"
    by (simp add: rx_eval year_eval kw_eval score_eval)
  have b: "\<not> someIn MEMORIAL_KW (toLowerCaseL1 (asc ''Massacre'' @ [32] @ []))"
    by (simp add: rx_eval year_eval kw_eval score_eval)
  have c: "classify (toLowerCaseL1 (asc ''Massacre'' @ [32] @ [])) = (Shock, 45)"
    by (simp add: rx_eval year_eval kw_eval score_eval)
  have d: "\<not> rejected \<lparr>score = 565, rejected = False, reason = Retenu Shock 45 0 True False, cat = Shock\<rparr>"
    by simp
  from computeScore_title_bonus [of toLowerCaseL1 "asc ''Massacre''" "[]" 50, OF a d b] a c
  show ?thesis by simp
qed

text \<open>
  The claim as stated fails on a title whose only keyword is an origins keyword: the
  title \<open>Grotte\<close> holds \<open>grotte\<close>, and the score is \<open>10 + 5\<close>, with no bonus.
\<close>

theorem title_origins_keyword_counterexample:
  "asc ''grotte'' \<in> set ORIGINS_KW
   \<and> str_includes (toLowerCaseL1 (asc ''Grotte'')) (asc ''grotte'')
   \<and> classify (toLowerCaseL1 (asc ''Grotte'' @ [32] @ [])) = (Origins, 5)
   \<and> computeScore toLowerCaseL1 (asc ''Grotte'') [] 50
       = Some \<lparr>score = 15, rejected = False, reason = Retenu Origins 5 0 False False, cat = Origins\<rparr>"
proof -
  have "asc ''grotte'' \<in> set ORIGINS_KW" by (simp add: ORIGINS_KW_def)
  moreover have "str_includes (toLowerCaseL1 (asc ''Grotte'')) (asc ''grotte'')" by (simp add: rx_eval year_eval kw_eval score_eval)
  moreover have "classify (toLowerCaseL1 (asc ''Grotte'' @ [32] @ [])) = (Origins, 5)" by (simp add: rx_eval year_eval kw_eval score_eval)
  moreover have "computeScore toLowerCaseL1 (asc ''Grotte'') [] 50
       = Some \<lparr>score = 15, rejected = False, reason = Retenu Origins 5 0 False False, cat = Origins\<rparr>"
    by (simp add: rx_eval year_eval kw_eval score_eval)
  ultimately show ?thesis by simp
qed

text \<open>
  C5, as the code has it. A text with a sports keyword, no memorial-exception keyword
  and fewer than 20 language editions is rejected, provided it holds no memorial-site
  keyword: the memorial boost is tested first and never rejects.
\<close>

theorem computeScore_sport_rejected:
  assumes sport: "s \<in> set SPORT_BLACKLIST" "str_includes (lc (title @ [32] @ extract)) s"
    and noexc: "\<forall>x \<in> set SPORT_EXCEPTIONS. \<not> str_includes (lc (title @ [32] @ extract)) x"
    and nomem: "\<forall>k \<in> set MEMORIAL_KW. \<not> str_includes (lc (title @ [32] @ extract)) k"
    and few: "langs < 20"
  shows "\<exists>r. computeScore lc title extract langs = Some r \<and> rejected r"
proof -
  let ?full = "lc (title @ [32] @ extract)"
  obtain m where m: "countOccurrences lc ?full CHURCH_WORDS = Some m"
    using church_total by blast
  have a: "someIn SPORT_BLACKLIST ?full" using sport by (auto simp: someIn_iff)
  have b: "\<not> someIn SPORT_EXCEPTIONS ?full" using noexc by (auto simp: someIn_iff)
  have c: "\<not> someIn MEMORIAL_KW ?full" using nomem by (auto simp: someIn_iff)
  show ?thesis
    using a b c few m by (simp add: computeScore_def Let_def)
qed

theorem computeScore_sport_rejected_witness:
  "computeScore toLowerCaseL1 (asc ''Stade municipal'') (asc ''Un club de football.'') 3
     = Some \<lparr>score = - 100, rejected = True, reason = SportMineur 3, cat = Civilization\<rparr>"
proof -
  let ?full = "toLowerCaseL1 (asc ''Stade municipal'' @ [32] @ asc ''Un club de football.'')"
  have a: "asc ''stade'' \<in> set SPORT_BLACKLIST" by (simp add: SPORT_BLACKLIST_def)
  have b: "str_includes ?full (asc ''stade'')" by (simp add: rx_eval year_eval kw_eval score_eval)
  have c: "\<forall>x \<in> set SPORT_EXCEPTIONS. \<not> str_includes ?full x" by (simp add: rx_eval year_eval kw_eval score_eval)
  have d: "\<forall>k \<in> set MEMORIAL_KW. \<not> str_includes ?full k" by (simp add: rx_eval year_eval kw_eval score_eval)
  have e: "computeScore toLowerCaseL1 (asc ''Stade municipal'') (asc ''Un club de football.'') 3
     = Some \<lparr>score = - 100, rejected = True, reason = SportMineur 3, cat = Civilization\<rparr>"
    by (simp add: rx_eval year_eval kw_eval score_eval)
  have f: "(3::int) < 20" by simp
  from computeScore_sport_rejected
         [of "asc ''stade''" toLowerCaseL1 "asc ''Stade municipal''" "asc ''Un club de football.''" 3,
          OF a b c d f] e
  show ?thesis by simp
qed

text \<open>
  The claim as stated fails when the text also holds a memorial-site keyword that is not
  a memorial exception, such as \<open>shoah\<close>: the candidate is boosted, not rejected.
\<close>

theorem sport_memorial_counterexample:
  "asc ''stade'' \<in> set SPORT_BLACKLIST
   \<and> str_includes (toLowerCaseL1 (asc ''Stade'' @ [32] @ asc ''shoah'')) (asc ''stade'')
   \<and> \<not> someIn SPORT_EXCEPTIONS (toLowerCaseL1 (asc ''Stade'' @ [32] @ asc ''shoah''))
   \<and> computeScore toLowerCaseL1 (asc ''Stade'') (asc ''shoah'') 0
       = Some \<lparr>score = 1000, rejected = False, reason = BoostMemoriel 0, cat = Shock\<rparr>"
proof -
  have "asc ''stade'' \<in> set SPORT_BLACKLIST" by (simp add: SPORT_BLACKLIST_def)
  moreover have "str_includes (toLowerCaseL1 (asc ''Stade'' @ [32] @ asc ''shoah'')) (asc ''stade'')"
    by (simp add: rx_eval year_eval kw_eval score_eval)
  moreover have "\<not> someIn SPORT_EXCEPTIONS (toLowerCaseL1 (asc ''Stade'' @ [32] @ asc ''shoah''))"
    by (simp add: rx_eval year_eval kw_eval score_eval)
  moreover have "computeScore toLowerCaseL1 (asc ''Stade'') (asc ''shoah'') 0
       = Some \<lparr>score = 1000, rejected = False, reason = BoostMemoriel 0, cat = Shock\<rparr>"
    by (simp add: rx_eval year_eval kw_eval score_eval)
  ultimately show ?thesis by simp
qed

section \<open>Properties of the orchestrator\<close>

text \<open>
  C2. Whatever the network answers and whatever the caches hold, \<open>fetchWikiEvents\<close>
  returns a list that is sorted by non-increasing \<open>score\<close> and has at most 30 entries.
\<close>

theorem fetchWikiEvents_sorted_top30:
  "\<exists>evs st'. fetchWikiEvents e st la lo radius = Some (evs, st')
      \<and> sorted_wrt (\<lambda>a b. ev_score b \<le> ev_score a) evs
      \<and> length evs \<le> 30"
  using fetchWikiEvents_cases [of e st la lo radius]
  by (auto simp: sorted_desc_take_sort MAX_RESULTS_def)

theorem fetchWikiEvents_sorted_top30_witness:
  "map_option (map ev_score \<circ> fst) (fetchWikiEvents demoEnv demoCaches 48 2 10000)
     = Some [1150, 1000]"
proof -
  from fetchWikiEvents_sorted_top30 [of demoEnv demoCaches 48 2 10000]
  obtain evs st' where "fetchWikiEvents demoEnv demoCaches 48 2 10000 = Some (evs, st')"
    by blast
  with demo_run show ?thesis by auto
qed

text \<open>
  C9. \<open>trimExtract\<close> returns at most 500 code units, and so the description of every
  event returned by \<open>fetchWikiEvents\<close> has at most 500 code units.
\<close>

theorem trimExtract_at_most_500:
  "length (trimExtract lc extract yr) \<le> 500
   \<and> (\<exists>evs st'. fetchWikiEvents e st la lo radius = Some (evs, st')
         \<and> (\<forall>ev \<in> set evs. length (ev_description ev) \<le> 500))"
proof -
  have "\<exists>evs st'. fetchWikiEvents e st la lo radius = Some (evs, st')
         \<and> (\<forall>ev \<in> set evs. length (ev_description ev) \<le> 500)"
    using fetchWikiEvents_cases [of e st la lo radius]
    by (auto dest: in_take_sort)
  with trimExtract_length show ?thesis by blast
qed

theorem trimExtract_at_most_500_witness:
  "map_option (map ev_description \<circ> fst) (fetchWikiEvents demoEnv demoCaches 48 2 10000)
     = Some [asc ''Des morts.'', asc ''Un goulag.'']"
proof -
  from trimExtract_at_most_500 [of toLowerCaseL1 "[]" None demoEnv demoCaches 48 2 10000]
  obtain evs st' where "fetchWikiEvents demoEnv demoCaches 48 2 10000 = Some (evs, st')"
    by blast
  with demo_run show ?thesis by auto
qed

section \<open>Properties of the quiz generator\<close>

text \<open>
  C6. For every event, pool and difficulty, and for every outcome of the three shuffles,
  the options of the question have length 4, hold no duplicate, and hold the clean title
  of the event exactly once. The one fact used about the built-in \<open>toLowerCase\<close> is that
  it keeps the eight generic fallback titles apart.
\<close>

theorem prepareQuizQuestion_options:
  assumes "distinct (map lc genericFallbacks)"
  shows "length (q_options (prepareQuizQuestion lc canon p1 p2 p3 ev pool difficulty)) = 4
       \<and> distinct (q_options (prepareQuizQuestion lc canon p1 p2 p3 ev pool difficulty))
       \<and> count_list (q_options (prepareQuizQuestion lc canon p1 p2 p3 ev pool difficulty))
            (cleanTitle (ev_title ev)) = 1"
proof -
  let ?t = "cleanTitle (ev_title ev)"
  let ?d = "generateDecoys lc p1 p2 ev pool 3"
  let ?o = "shuffle p3 (?t # ?d)"
  have opts: "q_options (prepareQuizQuestion lc canon p1 p2 p3 ev pool difficulty) = ?o"
    by (simp add: prepareQuizQuestion_def Let_def)
  from generateDecoys_three [OF assms, of p1 p2 ev pool]
  have d: "length ?d = 3" "distinct ?d" "?t \<notin> set ?d" by blast+
  have m: "mset ?o = mset (?t # ?d)" by (rule mset_shuffle)
  have "length ?o = 4" using mset_eq_length [OF m] d(1) by simp
  moreover have "distinct ?o" using mset_eq_imp_distinct_iff [OF m] d(2,3) by simp
  moreover have "count_list ?o ?t = 1"
  proof -
    have "count_list ?o ?t = count (mset ?o) ?t" by (simp add: count_mset)
    also have "\<dots> = count (mset (?t # ?d)) ?t" by (simp only: m)
    also have "\<dots> = 1" using d(3) by (simp add: count_mset count_list_0_iff)
    finally show ?thesis .
  qed
  ultimately show ?thesis unfolding opts by simp
qed

theorem prepareQuizQuestion_options_witness:
  "q_options (prepareQuizQuestion toLowerCaseL1 canonL1 (\<lambda>i. 0) (\<lambda>i. 0) (\<lambda>i. 0) verdun [] Easy)
     = [asc ''Si'' @ [232] @ asc ''ge de Constantinople'', asc ''R'' @ [233] @ asc ''volte des Canuts'',
        asc ''Trait'' @ [233] @ asc '' de Westphalie'', asc ''Bataille de Verdun'']"
proof -
  have fb: "distinct (map toLowerCaseL1 genericFallbacks)"
    by (simp add: genericFallbacks_def toLowerCaseL1_def lowerUnitL1_def asc_def)
  have run: "q_options (prepareQuizQuestion toLowerCaseL1 canonL1 (\<lambda>i. 0) (\<lambda>i. 0) (\<lambda>i. 0) verdun [] Easy)
     = [asc ''Si'' @ [232] @ asc ''ge de Constantinople'', asc ''R'' @ [233] @ asc ''volte des Canuts'',
        asc ''Trait'' @ [233] @ asc '' de Westphalie'', asc ''Bataille de Verdun'']"
    by (simp add: rx_eval quiz_eval)
  from prepareQuizQuestion_options
         [OF fb, of canonL1 "\<lambda>i. 0" "\<lambda>i. 0" "\<lambda>i. 0" verdun "[]" Easy] run
  show ?thesis by simp
qed

text \<open>
  C8, as the code has it. Masking a description twice with the same title gives the same
  text as masking it once, for every description and every title whose clean form holds
  no full block (the glyph of the mask tokens). The one fact used about the built-in
  canonicalisation of the \<open>i\<close> flag is that no other code unit is canonicalised like
  the full block.
\<close>

theorem maskDescription_idempotent:
  assumes hc: "\<forall>k. canon k = canon 9608 \<longrightarrow> k = 9608"
    and clean: "9608 \<notin> set (cleanTitle rawTitle)"
  shows "maskDescription lc canon (maskDescription lc canon description rawTitle) rawTitle
         = maskDescription lc canon description rawTitle"
proof -
  define t where "t = cleanTitle rawTitle"
  define ws where "ws = extractSignificantWords lc t"
  define W where "W = fold (\<lambda>w m. rxReplaceAll (wordRe canon w) wordMask m) ws"
  define T where "T = (\<lambda>d. if length t > 0 then rxReplaceAll (litCanon canon t) fullMask d else d)"
  have M: "\<And>d. maskDescription lc canon d rawTitle = W (T d)"
    by (simp add: maskDescription_def cleanTitle_def [symmetric] t_def [symmetric]
          ws_def [symmetric] W_def T_def Let_def)
  have words: "\<forall>w \<in> set ws. w \<noteq> [] \<and> 9608 \<notin> set w"
    unfolding ws_def using significant_words by blast
  let ?m = "W (T description)"
  have gone: "\<forall>w \<in> set ws. noOcc canon True w None ?m"
    unfolding W_def using word_pass_removes [OF hc words] by blast
  have T_id: "T ?m = ?m"
  proof (cases "t = []")
    case True
    then show ?thesis by (simp add: T_def)
  next
    case False
    with clean have t: "t \<noteq> []" "9608 \<notin> set t" by (simp_all add: t_def)
    have "noOcc canon False t None (T description)"
      using replLit_removes [OF hc masks(1,2) t] t(1) by (simp add: T_def replaceAll_title)
    then have "noOcc canon False t None ?m"
      unfolding W_def using word_pass_keeps [OF hc t] words by blast
    then show ?thesis by (simp add: T_def replaceAll_title t(1) replLit_id)
  qed
  have "W ?m = ?m"
    unfolding W_def using word_pass_id [of ws canon] gone words by (simp add: W_def)
  with T_id show ?thesis by (simp add: M)
qed

theorem maskDescription_idempotent_witness:
  "maskDescription toLowerCaseL1 canonL1
     (maskDescription toLowerCaseL1 canonL1 (ev_description verdun) (ev_title verdun)) (ev_title verdun)
   = asc ''La '' @ fullMask @ asc '' oppose deux arm'' @ [233] @ asc ''es.''"
proof -
  have once: "maskDescription toLowerCaseL1 canonL1 (ev_description verdun) (ev_title verdun)
     = asc ''La '' @ fullMask @ asc '' oppose deux arm'' @ [233] @ asc ''es.''"
    by (simp add: rx_eval quiz_eval mask_eval)
  have clean: "9608 \<notin> set (cleanTitle (ev_title verdun))"
    by (simp add: rx_eval quiz_eval)
  from maskDescription_idempotent
         [OF canonL1_block clean, of toLowerCaseL1 "ev_description verdun"] once
  show ?thesis by simp
qed

text \<open>
  The claim as stated fails for a title that holds the mask glyph. With the title made of
  a full block and \<open>x\<close>, the description made of a full block and \<open>xx\<close> is masked to
  six blocks and \<open>x\<close>, which holds the title again: a second masking yields eleven
  blocks.
\<close>

theorem mask_glyph_title_counterexample:
  "maskDescription toLowerCaseL1 canonL1 [9608, 120, 120] [9608, 120] = fullMask @ [120]
   \<and> maskDescription toLowerCaseL1 canonL1 (fullMask @ [120]) [9608, 120]
       = fullMask @ [9608, 9608, 9608, 9608, 9608]
   \<and> maskDescription toLowerCaseL1 canonL1
         (maskDescription toLowerCaseL1 canonL1 [9608, 120, 120] [9608, 120]) [9608, 120]
       \<noteq> maskDescription toLowerCaseL1 canonL1 [9608, 120, 120] [9608, 120]"
proof -
  have a: "maskDescription toLowerCaseL1 canonL1 [9608, 120, 120] [9608, 120] = fullMask @ [120]"
    by (simp add: rx_eval quiz_eval mask_eval)
  have b: "maskDescription toLowerCaseL1 canonL1 (fullMask @ [120]) [9608, 120]
       = fullMask @ [9608, 9608, 9608, 9608, 9608]"
    by (simp add: rx_eval quiz_eval mask_eval)
  have "fullMask @ [9608, 9608, 9608, 9608, 9608] \<noteq> fullMask @ [120]"
    by (simp add: fullMask_def)
  with a b show ?thesis by simp
qed

section \<open>Properties of the quiz scoring\<close>

text \<open>
  C7. For a correct answer the points never grow when more hints are used, and they never
  fall below the floor of 10, whichever mode was played.
\<close>

theorem calculatePoints_antitone_floor:
  assumes "0 \<le> h1" and "h1 \<le> h2"
  shows "points (calculatePoints True h2 qcm) \<le> points (calculatePoints True h1 qcm)
       \<and> 10 \<le> points (calculatePoints True h1 qcm)
       \<and> 10 \<le> points (calculatePoints True h2 qcm)"
proof -
  have lin: "100 - h2 * 30 \<le> 100 - h1 * 30"
    using assms by simp
  have half: "roundHalf (100 - h2 * 30) \<le> roundHalf (100 - h1 * 30)"
    unfolding roundHalf_def using lin by (intro zdiv_mono1) simp_all
  show ?thesis
    using lin half by (cases qcm) (simp_all add: calculatePoints_def Let_def)
qed

theorem calculatePoints_antitone_floor_witness:
  "points (calculatePoints True 3 True) \<le> points (calculatePoints True 2 True)
   \<and> points (calculatePoints True 2 True) = 20
   \<and> points (calculatePoints True 3 True) = 10
   \<and> points (calculatePoints True 2 False) = 40"
  using calculatePoints_antitone_floor [of 2 3 True]
  by (simp add: calculatePoints_def roundHalf_def Let_def)

end
